theory Spec2Isabelle
  imports Complex_Main "HOL-Library.Monad_Syntax"
begin

section \<open>JavaScript values and JSON\<close>

text \<open>
  The session store of \<^verbatim>\<open>src/services/chatStorage.ts\<close> keeps its data as JSON text in
  the browser's \<^verbatim>\<open>localStorage\<close> and works on untyped values after \<^verbatim>\<open>JSON.parse\<close>
  (\<^verbatim>\<open>session: any\<close>). The model therefore has two value types: \<open>json\<close>, the trees
  that JSON text denotes, and \<open>jsval\<close>, the values the code holds at run time, which
  also has \<^verbatim>\<open>undefined\<close> and \<^verbatim>\<open>Date\<close> objects. Numbers are reals (no NaN, no
  rounding); an object is its list of own enumerable properties in insertion order
  (that an engine lists integer-like keys first is not modelled); a \<^verbatim>\<open>Date\<close> is its
  time value in milliseconds, \<open>None\<close> for an Invalid Date.
\<close>

datatype json =
    JNull
  | JBool bool
  | JNum real
  | JStr string
  | JArr "json list"
  | JObj "(string \<times> json) list"

datatype jsval =
    VUndefined
  | VNull
  | VBool bool
  | VNum real
  | VStr string
  | VDate "int option"
  | VArr "jsval list"
  | VObj "(string \<times> jsval) list"

type_synonym obj = "(string \<times> jsval) list"

text \<open>
  Two functions of the platform are parameters of the model: \<^verbatim>\<open>new Date(v)\<close> on a parsed
  JSON value (its time value, \<open>None\<close> when the result is an Invalid Date) and
  \<^verbatim>\<open>Date.prototype.toISOString\<close>.
\<close>

record platform =
  new_Date :: "jsval \<Rightarrow> int option"
  toISOString :: "int \<Rightarrow> string"

text \<open>The text of a stored item or of a file: JSON text, identified with the tree it
  denotes, or a string that \<^verbatim>\<open>JSON.parse\<close> rejects.\<close>

datatype stored_text = Raw string | Json json

fun JSON_parse :: "stored_text \<Rightarrow> json option" where
  "JSON_parse (Raw s) = None"
| "JSON_parse (Json j) = Some j"

fun of_json :: "json \<Rightarrow> jsval" where
  "of_json JNull = VNull"
| "of_json (JBool b) = VBool b"
| "of_json (JNum n) = VNum n"
| "of_json (JStr s) = VStr s"
| "of_json (JArr xs) = VArr (map of_json xs)"
| "of_json (JObj ps) = VObj (map (\<lambda>(k, j). (k, of_json j)) ps)"

text \<open>\<^verbatim>\<open>JSON.stringify\<close>: \<open>None\<close> is \<^verbatim>\<open>undefined\<close> (the value is left out). A property
  whose value is \<^verbatim>\<open>undefined\<close> is dropped, an \<^verbatim>\<open>undefined\<close> array element becomes
  \<^verbatim>\<open>null\<close>, a \<^verbatim>\<open>Date\<close> becomes its ISO string and an Invalid Date \<^verbatim>\<open>null\<close>
  (\<^verbatim>\<open>Date.prototype.toJSON\<close>).\<close>

fun to_json :: "platform \<Rightarrow> jsval \<Rightarrow> json option" where
  "to_json pf VUndefined = None"
| "to_json pf VNull = Some JNull"
| "to_json pf (VBool b) = Some (JBool b)"
| "to_json pf (VNum n) = Some (JNum n)"
| "to_json pf (VStr s) = Some (JStr s)"
| "to_json pf (VDate d) =
     (case d of None \<Rightarrow> Some JNull | Some t \<Rightarrow> Some (JStr (toISOString pf t)))"
| "to_json pf (VArr xs) =
     Some (JArr (map (\<lambda>x. case to_json pf x of None \<Rightarrow> JNull | Some j \<Rightarrow> j) xs))"
| "to_json pf (VObj ps) =
     Some (JObj (List.map_filter (\<lambda>(k, jo). map_option (Pair k) jo)
                  (map (\<lambda>(k, v). (k, to_json pf v)) ps)))"


subsection \<open>Property access, spread and the operators the code uses\<close>

text \<open>\<^verbatim>\<open>o.k\<close> on an object: \<^verbatim>\<open>undefined\<close> when the property is absent.\<close>

definition lookup :: "obj \<Rightarrow> string \<Rightarrow> jsval" where
  "lookup ps k = (case map_of ps k of None \<Rightarrow> VUndefined | Some v \<Rightarrow> v)"

text \<open>\<^verbatim>\<open>o.k = v\<close>, and a property \<^verbatim>\<open>k: v\<close> after a spread in an object literal: an
  existing property keeps its place, a new one goes last.\<close>

fun set_prop :: "string \<Rightarrow> jsval \<Rightarrow> obj \<Rightarrow> obj" where
  "set_prop k v [] = [(k, v)]"
| "set_prop k v ((k', v') # ps) =
     (if k' = k then (k, v) # ps else (k', v') # set_prop k v ps)"

text \<open>\<^verbatim>\<open>v.k\<close> on any value, for the property names this code reads (none of them is a
  built-in property of arrays, strings, numbers or booleans): \<open>None\<close> is the TypeError
  thrown on \<^verbatim>\<open>null\<close> and \<^verbatim>\<open>undefined\<close>.\<close>

fun get_prop :: "jsval \<Rightarrow> string \<Rightarrow> jsval option" where
  "get_prop VUndefined k = None"
| "get_prop VNull k = None"
| "get_prop (VObj ps) k = Some (lookup ps k)"
| "get_prop v k = Some VUndefined"

text \<open>The same read where the code has already tested the receiver for truthiness
  (\<^verbatim>\<open>session && session.id\<close>), so that it cannot throw.\<close>

definition dot :: "jsval \<Rightarrow> string \<Rightarrow> jsval" where
  "dot v k = (case get_prop v k of None \<Rightarrow> VUndefined | Some w \<Rightarrow> w)"

definition digit_char :: "nat \<Rightarrow> char" where
  "digit_char d = ''0123456789abcdefghijklmnopqrstuvwxyz'' ! d"

fun digits :: "nat \<Rightarrow> nat \<Rightarrow> string" where
  "digits b n =
     (if n < b \<or> b < 2 then [digit_char n] else digits b (n div b) @ [digit_char (n mod b)])"

declare digits.simps [simp del]

definition string_of_nat :: "nat \<Rightarrow> string" where
  "string_of_nat n = digits 10 n"

definition indexed :: "jsval list \<Rightarrow> obj" where
  "indexed xs = map (\<lambda>(i, x). (string_of_nat i, x)) (enumerate 0 xs)"

text \<open>The properties that \<^verbatim>\<open>{...v}\<close> copies: those of an object, the elements of an
  array and the characters of a string under their indices, nothing for any other
  value (\<^verbatim>\<open>null\<close> and \<^verbatim>\<open>undefined\<close> included).\<close>

fun spread :: "jsval \<Rightarrow> obj" where
  "spread (VObj ps) = ps"
| "spread (VArr xs) = indexed xs"
| "spread (VStr s) = indexed (map (\<lambda>c. VStr [c]) s)"
| "spread v = []"

fun truthy :: "jsval \<Rightarrow> bool" where
  "truthy VUndefined = False"
| "truthy VNull = False"
| "truthy (VBool b) = b"
| "truthy (VNum n) = (n \<noteq> 0)"
| "truthy (VStr s) = (s \<noteq> [])"
| "truthy v = True"

fun typeof :: "jsval \<Rightarrow> string" where
  "typeof VUndefined = ''undefined''"
| "typeof (VBool b) = ''boolean''"
| "typeof (VNum n) = ''number''"
| "typeof (VStr s) = ''string''"
| "typeof v = ''object''"

fun isArray :: "jsval \<Rightarrow> bool" where
  "isArray (VArr xs) = True"
| "isArray v = False"

text \<open>\<^verbatim>\<open>v.map(f)\<close> with a callback that may throw: a TypeError unless \<open>v\<close> is an
  array, and the first exception of the callback otherwise.\<close>

fun array_map :: "(jsval \<Rightarrow> 'a option) \<Rightarrow> jsval \<Rightarrow> 'a list option" where
  "array_map f (VArr xs) = those (map f xs)"
| "array_map f v = None"

fun findIndex :: "('a \<Rightarrow> bool) \<Rightarrow> 'a list \<Rightarrow> nat option" where
  "findIndex P [] = None"
| "findIndex P (x # xs) = (if P x then Some 0 else map_option Suc (findIndex P xs))"

section \<open>The browser state\<close>

text \<open>
  \<^verbatim>\<open>localStorage\<close> with the two keys the services use, \<^verbatim>\<open>rag_chat_sessions\<close>
  (\<^verbatim>\<open>ChatStorageService.STORAGE_KEY\<close>) and \<^verbatim>\<open>license_key\<close>
  (\<^verbatim>\<open>LicenseService.STORAGE_KEY\<close>); whether its calls throw (\<open>denied\<close>: all of them,
  \<open>quota_full\<close>: \<^verbatim>\<open>setItem\<close>); and the names of the events dispatched on
  \<^verbatim>\<open>window\<close>, in order.
\<close>

record browser =
  chat_item :: "stored_text option"
  license_item :: "string option"
  denied :: bool
  quota_full :: bool
  dispatched :: "string list"

section \<open>ChatStorageService\<close>

definition MAX_SESSIONS :: nat where
  "MAX_SESSIONS = 50"

text \<open>The callbacks of the two \<^verbatim>\<open>map\<close> calls in \<^verbatim>\<open>getSessions\<close>:
  \<^verbatim>\<open>{...msg, timestamp: new Date(msg.timestamp)}\<close> and
  \<^verbatim>\<open>{...session, createdAt: ..., updatedAt: ..., messages: session.messages.map(...)}\<close>.\<close>

definition revive_message :: "platform \<Rightarrow> jsval \<Rightarrow> jsval option" where
  "revive_message pf msg = do {
     ts \<leftarrow> get_prop msg ''timestamp'';
     Some (VObj (set_prop ''timestamp'' (VDate (new_Date pf ts)) (spread msg)))
   }"

definition revive_session :: "platform \<Rightarrow> jsval \<Rightarrow> obj option" where
  "revive_session pf session = do {
     c \<leftarrow> get_prop session ''createdAt'';
     u \<leftarrow> get_prop session ''updatedAt'';
     m \<leftarrow> get_prop session ''messages'';
     ms \<leftarrow> array_map (revive_message pf) m;
     Some (set_prop ''messages'' (VArr ms)
            (set_prop ''updatedAt'' (VDate (new_Date pf u))
              (set_prop ''createdAt'' (VDate (new_Date pf c)) (spread session))))
   }"

text \<open>The body of the \<^verbatim>\<open>try\<close> block of \<^verbatim>\<open>getSessions\<close>; \<open>None\<close> is an exception
  (of \<^verbatim>\<open>getItem\<close>, of \<^verbatim>\<open>JSON.parse\<close> or a TypeError of the mapping).\<close>

definition getSessions_try :: "platform \<Rightarrow> browser \<Rightarrow> obj list option" where
  "getSessions_try pf st =
     (if denied st then None
      else case chat_item st of
        None \<Rightarrow> Some []
      | Some stored \<Rightarrow>
          if stored = Raw [] then Some []
          else do {
            sessions \<leftarrow> JSON_parse stored;
            array_map (revive_session pf) (of_json sessions)
          })"

definition getSessions :: "platform \<Rightarrow> browser \<Rightarrow> obj list" where
  "getSessions pf st = (case getSessions_try pf st of None \<Rightarrow> [] | Some xs \<Rightarrow> xs)"

definition getSession :: "platform \<Rightarrow> browser \<Rightarrow> string \<Rightarrow> obj option" where
  "getSession pf st sessionId =
     find (\<lambda>session. lookup session ''id'' = VStr sessionId) (getSessions pf st)"

text \<open>\<^verbatim>\<open>JSON.stringify\<close> of an array of values.\<close>

definition stringify_array :: "platform \<Rightarrow> jsval list \<Rightarrow> stored_text" where
  "stringify_array pf xs =
     Json (JArr (map (\<lambda>x. case to_json pf x of None \<Rightarrow> JNull | Some j \<Rightarrow> j) xs))"

definition saveSessions :: "platform \<Rightarrow> browser \<Rightarrow> jsval list \<Rightarrow> browser" where
  "saveSessions pf st sessions =
     (if denied st \<or> quota_full st then st
      else st\<lparr>chat_item := Some (stringify_array pf sessions)\<rparr>)"

text \<open>\<^verbatim>\<open>Date.now().toString(36) + Math.random().toString(36).substr(2)\<close>: the clock
  reading and the digits that the random number leaves are inputs.\<close>

definition toString :: "nat \<Rightarrow> int \<Rightarrow> string" where
  "toString radix i =
     (if i < 0 then CHR ''-'' # digits radix (nat (- i)) else digits radix (nat i))"

definition generateId :: "int \<Rightarrow> string \<Rightarrow> string" where
  "generateId now random36 = toString 36 now @ random36"

text \<open>What one call reads from its environment, in the order of the reads:
  \<^verbatim>\<open>Date.now()\<close> and \<^verbatim>\<open>Math.random()\<close> in \<^verbatim>\<open>generateId\<close>, then two
  \<^verbatim>\<open>new Date()\<close>.\<close>

record reads =
  date_now :: int
  random36 :: string
  date1 :: int
  date2 :: int

definition newSession :: "string \<Rightarrow> jsval \<Rightarrow> reads \<Rightarrow> obj" where
  "newSession name settings r =
     [(''id'', VStr (generateId (date_now r) (random36 r))),
      (''name'', VStr name),
      (''messages'', VArr []),
      (''createdAt'', VDate (Some (date1 r))),
      (''updatedAt'', VDate (Some (date2 r))),
      (''settings'', settings)]"

definition createSession ::
  "platform \<Rightarrow> browser \<Rightarrow> string \<Rightarrow> jsval \<Rightarrow> reads \<Rightarrow> browser \<times> obj" where
  "createSession pf st name settings r =
     (let new = newSession name settings r;
          sessions = new # getSessions pf st;
          sessions = (if length sessions > MAX_SESSIONS then take MAX_SESSIONS sessions
                      else sessions)
      in (saveSessions pf st (map VObj sessions), new))"

definition updateSessionName ::
  "platform \<Rightarrow> browser \<Rightarrow> string \<Rightarrow> string \<Rightarrow> int \<Rightarrow> browser \<times> bool" where
  "updateSessionName pf st sessionId name now =
     (let sessions = getSessions pf st in
      case findIndex (\<lambda>s. lookup s ''id'' = VStr sessionId) sessions of
        None \<Rightarrow> (st, False)
      | Some i \<Rightarrow>
          let s = set_prop ''updatedAt'' (VDate (Some now))
                    (set_prop ''name'' (VStr name) (sessions ! i))
          in (saveSessions pf st (map VObj (sessions[i := s])), True))"

definition newMessage :: "obj \<Rightarrow> reads \<Rightarrow> obj" where
  "newMessage message r =
     set_prop ''timestamp'' (VDate (Some (date1 r)))
       (set_prop ''id'' (VStr (generateId (date_now r) (random36 r))) message)"

text \<open>\<^verbatim>\<open>a.push(x)\<close>: a TypeError unless \<open>a\<close> is an array.\<close>

fun push :: "jsval \<Rightarrow> jsval \<Rightarrow> jsval option" where
  "push (VArr xs) x = Some (VArr (xs @ [x]))"
| "push a x = None"

text \<open>\<^verbatim>\<open>addMessage\<close> has no \<^verbatim>\<open>try\<close>: the outer \<open>None\<close> is an exception that reaches
  the caller, the inner one the \<^verbatim>\<open>null\<close> it returns for an unknown session.\<close>

definition addMessage ::
  "platform \<Rightarrow> browser \<Rightarrow> string \<Rightarrow> obj \<Rightarrow> reads \<Rightarrow> (browser \<times> obj option) option" where
  "addMessage pf st sessionId message r =
     (let sessions = getSessions pf st in
      case findIndex (\<lambda>s. lookup s ''id'' = VStr sessionId) sessions of
        None \<Rightarrow> Some (st, None)
      | Some i \<Rightarrow> do {
          let new = newMessage message r;
          messages \<leftarrow> push (lookup (sessions ! i) ''messages'') (VObj new);
          let s = set_prop ''updatedAt'' (VDate (Some (date2 r)))
                    (set_prop ''messages'' messages (sessions ! i));
          Some (saveSessions pf st (map VObj (sessions[i := s])), Some new)
        })"

definition merge_props :: "obj \<Rightarrow> obj \<Rightarrow> obj" where
  "merge_props ps qs = fold (\<lambda>(k, v). set_prop k v) qs ps"

definition updateSessionSettings ::
  "platform \<Rightarrow> browser \<Rightarrow> string \<Rightarrow> obj \<Rightarrow> int \<Rightarrow> browser \<times> bool" where
  "updateSessionSettings pf st sessionId settings now =
     (let sessions = getSessions pf st in
      case findIndex (\<lambda>s. lookup s ''id'' = VStr sessionId) sessions of
        None \<Rightarrow> (st, False)
      | Some i \<Rightarrow>
          let merged = merge_props (spread (lookup (sessions ! i) ''settings'')) settings;
              s = set_prop ''updatedAt'' (VDate (Some now))
                    (set_prop ''settings'' (VObj merged) (sessions ! i))
          in (saveSessions pf st (map VObj (sessions[i := s])), True))"

definition deleteSession :: "platform \<Rightarrow> browser \<Rightarrow> string \<Rightarrow> browser \<times> bool" where
  "deleteSession pf st sessionId =
     (let sessions = getSessions pf st;
          filteredSessions = filter (\<lambda>s. lookup s ''id'' \<noteq> VStr sessionId) sessions
      in if length filteredSessions = length sessions then (st, False)
         else (saveSessions pf st (map VObj filteredSessions), True))"

text \<open>The content of the file that \<^verbatim>\<open>exportSessions\<close> offers for download
  (\<^verbatim>\<open>JSON.stringify(sessions, null, 2)\<close>; the indentation does not change the tree).\<close>

definition exportSessions :: "platform \<Rightarrow> browser \<Rightarrow> stored_text" where
  "exportSessions pf st = stringify_array pf (map VObj (getSessions pf st))"

definition isValidSession :: "jsval \<Rightarrow> bool" where
  "isValidSession session \<longleftrightarrow>
     truthy session \<and>
     typeof (dot session ''id'') = ''string'' \<and>
     typeof (dot session ''name'') = ''string'' \<and>
     isArray (dot session ''messages'') \<and>
     truthy (dot session ''settings'') \<and>
     typeof (dot (dot session ''settings'') ''model'') = ''string'' \<and>
     typeof (dot (dot session ''settings'') ''temperature'') = ''number'' \<and>
     dot (dot session ''settings'') ''search_type''
       \<in> set [VStr ''hybrid'', VStr ''semantic'', VStr ''keyword'']"

text \<open>\<^verbatim>\<open>importSessions\<close> on the text of the file, once the reader has loaded it; the
  boolean is the value the promise resolves to.\<close>

definition importSessions :: "platform \<Rightarrow> browser \<Rightarrow> stored_text \<Rightarrow> browser \<times> bool" where
  "importSessions pf st content =
     (case JSON_parse content of
        None \<Rightarrow> (st, False)
      | Some parsed \<Rightarrow>
          (case of_json parsed of
             VArr sessions \<Rightarrow>
               if list_all isValidSession sessions then (saveSessions pf st sessions, True)
               else (st, False)
           | _ \<Rightarrow> (st, False)))"


section \<open>LicenseService\<close>

definition getKey :: "browser \<Rightarrow> string option" where
  "getKey st = (if denied st then None else license_item st)"

definition setKey :: "browser \<Rightarrow> string \<Rightarrow> browser" where
  "setKey st key =
     (if denied st \<or> quota_full st then st
      else st\<lparr>license_item := Some key, dispatched := dispatched st @ [''license:updated'']\<rparr>)"

definition clearKey :: "browser \<Rightarrow> browser" where
  "clearKey st =
     (if denied st then st
      else st\<lparr>license_item := None, dispatched := dispatched st @ [''license:cleared'']\<rparr>)"

section \<open>ApiService\<close>

text \<open>
  The source holds three definitions of \<^verbatim>\<open>ApiService\<close>. What \<^verbatim>\<open>fetch\<close> does is an
  input: it rejects with a TypeError, or it resolves to a response with a status and a
  body, \<open>None\<close> when \<^verbatim>\<open>response.json()\<close> rejects. A call returns the new browser
  state and either the value it throws or the value it resolves to. \<open>Error v\<close> is
  \<^verbatim>\<open>new Error(v)\<close>, \<open>NetworkError\<close> the error with \<^verbatim>\<open>isCorsError\<close> set.
\<close>

datatype fetch_outcome = Rejected string | Response nat "json option"

datatype thrown = Error jsval | TypeError string | SyntaxError | NetworkError

definition ok :: "nat \<Rightarrow> bool" where
  "ok status \<longleftrightarrow> 200 \<le> status \<and> status \<le> 299"

text \<open>\<^verbatim>\<open>const errorData = await response.json().catch(() => ({}));
  throw new Error(errorData.detail || fallback)\<close>; reading \<^verbatim>\<open>detail\<close> of a
  \<^verbatim>\<open>null\<close> body throws a TypeError instead.\<close>

definition error_of_body :: "json option \<Rightarrow> string \<Rightarrow> thrown" where
  "error_of_body body fallback =
     (let errorData = (case body of None \<Rightarrow> VObj [] | Some j \<Rightarrow> of_json j) in
      case get_prop errorData ''detail'' of
        None \<Rightarrow> TypeError ''Cannot read properties of null''
      | Some detail \<Rightarrow> Error (if truthy detail then detail else VStr fallback))"

definition http_error :: "nat \<Rightarrow> string" where
  "http_error status = ''HTTP error! status: '' @ string_of_nat status"

definition resolve_json :: "json option \<Rightarrow> thrown + jsval" where
  "resolve_json body = (case body of None \<Rightarrow> Inl SyntaxError | Some j \<Rightarrow> Inr (of_json j))"

text \<open>The first definition (it imports \<^verbatim>\<open>licenseService\<close> and clears the key):
  \<^verbatim>\<open>request\<close> and \<^verbatim>\<open>uploadDocument\<close> handle the response alike.\<close>

definition request :: "browser \<Rightarrow> fetch_outcome \<Rightarrow> browser \<times> (thrown + jsval)" where
  "request st outcome =
     (case outcome of
        Rejected msg \<Rightarrow> (st, Inl (TypeError msg))
      | Response status body \<Rightarrow>
          if \<not> ok status then
            (if status = 401 \<or> status = 403 then clearKey st else st,
             Inl (error_of_body body (http_error status)))
          else (st, resolve_json body))"

definition uploadDocument :: "browser \<Rightarrow> fetch_outcome \<Rightarrow> browser \<times> (thrown + jsval)" where
  "uploadDocument st outcome =
     (case outcome of
        Rejected msg \<Rightarrow> (st, Inl (TypeError msg))
      | Response status body \<Rightarrow>
          if \<not> ok status then
            (if status = 401 \<or> status = 403 then clearKey st else st,
             Inl (error_of_body body (http_error status)))
          else (st, resolve_json body))"

text \<open>The second definition (it reads \<^verbatim>\<open>localStorage\<close> itself, for the header only).\<close>

definition request_direct :: "browser \<Rightarrow> fetch_outcome \<Rightarrow> browser \<times> (thrown + jsval)" where
  "request_direct st outcome =
     (case outcome of
        Rejected msg \<Rightarrow> (st, Inl (TypeError msg))
      | Response status body \<Rightarrow>
          if \<not> ok status then (st, Inl (error_of_body body (http_error status)))
          else (st, resolve_json body))"

definition uploadDocument_direct ::
  "browser \<Rightarrow> fetch_outcome \<Rightarrow> browser \<times> (thrown + jsval)" where
  "uploadDocument_direct st outcome =
     (case outcome of
        Rejected msg \<Rightarrow> (st, Inl (TypeError msg))
      | Response status body \<Rightarrow>
          if \<not> ok status then (st, Inl (error_of_body body (http_error status)))
          else (st, resolve_json body))"

text \<open>The third definition (with \<^verbatim>\<open>getApiBaseUrl\<close>): \<^verbatim>\<open>request\<close> gives 401 a message of
  its own and turns a TypeError whose message contains \<^verbatim>\<open>fetch\<close> into the network
  error; \<^verbatim>\<open>uploadDocument\<close> is that of the second definition.\<close>

fun str_includes :: "string \<Rightarrow> string \<Rightarrow> bool" where
  "str_includes [] pat = (pat = [])"
| "str_includes (c # cs) pat = (take (length pat) (c # cs) = pat \<or> str_includes cs pat)"

definition catch_cors :: "thrown \<Rightarrow> thrown" where
  "catch_cors e = (case e of
       TypeError msg \<Rightarrow> if str_includes msg ''fetch'' then NetworkError else TypeError msg
     | _ \<Rightarrow> e)"

definition request_cors :: "browser \<Rightarrow> fetch_outcome \<Rightarrow> browser \<times> (thrown + jsval)" where
  "request_cors st outcome =
     (case outcome of
        Rejected msg \<Rightarrow> (st, Inl (catch_cors (TypeError msg)))
      | Response status body \<Rightarrow>
          if \<not> ok status then
            (if status = 401 then
               (st, Inl (catch_cors
                   (error_of_body body ''Unauthorized: Please check your license key'')))
             else (st, Inl (catch_cors (error_of_body body (http_error status)))))
          else (st, case resolve_json body of Inl e \<Rightarrow> Inl (catch_cors e) | Inr v \<Rightarrow> Inr v))"

definition uploadDocument_cors ::
  "browser \<Rightarrow> fetch_outcome \<Rightarrow> browser \<times> (thrown + jsval)" where
  "uploadDocument_cors st outcome =
     (case outcome of
        Rejected msg \<Rightarrow> (st, Inl (TypeError msg))
      | Response status body \<Rightarrow>
          if \<not> ok status then (st, Inl (error_of_body body (http_error status)))
          else (st, resolve_json body))"


section \<open>Sequences of operations\<close>

fun createSessions :: "platform \<Rightarrow> browser \<Rightarrow> (string \<times> jsval \<times> reads) list \<Rightarrow> browser" where
  "createSessions pf st [] = st"
| "createSessions pf st ((name, settings, r) # calls) =
     createSessions pf (fst (createSession pf st name settings r)) calls"

text \<open>The mutating operations on sessions that do not replace the collection, with
  their arguments and what they read from the clock.\<close>

datatype operation =
    CreateSession string jsval reads
  | UpdateSessionName string string int
  | AddMessage string obj reads
  | UpdateSessionSettings string obj int

fun run :: "platform \<Rightarrow> browser \<Rightarrow> operation \<Rightarrow> browser" where
  "run pf st (CreateSession name settings r) = fst (createSession pf st name settings r)"
| "run pf st (UpdateSessionName sessionId name now) =
     fst (updateSessionName pf st sessionId name now)"
| "run pf st (AddMessage sessionId message r) =
     (case addMessage pf st sessionId message r of None \<Rightarrow> st | Some (st', m) \<Rightarrow> st')"
| "run pf st (UpdateSessionSettings sessionId settings now) =
     fst (updateSessionSettings pf st sessionId settings now)"

section \<open>The persisted layout\<close>

text \<open>
  What the store itself writes: a value is \<open>plain\<close> when it is a JSON value (no
  \<^verbatim>\<open>undefined\<close>, no \<^verbatim>\<open>Date\<close>); a message is well formed when its properties are
  distinct, its \<^verbatim>\<open>timestamp\<close> is a valid date and the rest is plain; a session
  likewise, with valid \<^verbatim>\<open>createdAt\<close> and \<^verbatim>\<open>updatedAt\<close> and an array of well-formed
  messages. The two platform functions agree when parsing the ISO string of a time
  gives the time back.
\<close>

fun plain :: "jsval \<Rightarrow> bool" where
  "plain VUndefined = False"
| "plain (VDate d) = False"
| "plain (VArr xs) = (\<forall>x\<in>set xs. plain x)"
| "plain (VObj ps) = (\<forall>(k, v)\<in>set ps. plain v)"
| "plain v = True"

definition is_date :: "jsval \<Rightarrow> bool" where
  "is_date v = (case v of VDate (Some t) \<Rightarrow> True | _ \<Rightarrow> False)"

definition well_formed_message :: "jsval \<Rightarrow> bool" where
  "well_formed_message m =
     (case m of
        VObj qs \<Rightarrow> distinct (map fst qs) \<and> is_date (lookup qs ''timestamp'') \<and>
                   (\<forall>(k, v)\<in>set qs. k \<noteq> ''timestamp'' \<longrightarrow> plain v)
      | _ \<Rightarrow> False)"

definition well_formed_session :: "obj \<Rightarrow> bool" where
  "well_formed_session ps \<longleftrightarrow>
     distinct (map fst ps) \<and>
     is_date (lookup ps ''createdAt'') \<and> is_date (lookup ps ''updatedAt'') \<and>
     (case lookup ps ''messages'' of
        VArr ms \<Rightarrow> \<forall>m\<in>set ms. well_formed_message m
      | _ \<Rightarrow> False) \<and>
     (\<forall>(k, v)\<in>set ps. k \<notin> {''createdAt'', ''updatedAt'', ''messages''} \<longrightarrow> plain v)"

definition iso_roundtrip :: "platform \<Rightarrow> bool" where
  "iso_roundtrip pf \<longleftrightarrow> (\<forall>t. new_Date pf (VStr (toISOString pf t)) = Some t)"

definition storage_ok :: "browser \<Rightarrow> bool" where
  "storage_ok st \<longleftrightarrow> \<not> denied st \<and> \<not> quota_full st"

text \<open>What a value is after \<^verbatim>\<open>JSON.stringify\<close> and \<^verbatim>\<open>JSON.parse\<close>, as an element of
  an array.\<close>

definition jsonify :: "platform \<Rightarrow> jsval \<Rightarrow> json" where
  "jsonify pf v = (case to_json pf v of None \<Rightarrow> JNull | Some j \<Rightarrow> j)"

definition reparse :: "platform \<Rightarrow> jsval \<Rightarrow> jsval" where
  "reparse pf v = of_json (jsonify pf v)"

definition updated_after_created :: "obj \<Rightarrow> bool" where
  "updated_after_created ps =
     (case (lookup ps ''createdAt'', lookup ps ''updatedAt'') of
        (VDate (Some c), VDate (Some u)) \<Rightarrow> c \<le> u
      | _ \<Rightarrow> False)"

definition messages_of :: "obj \<Rightarrow> jsval list" where
  "messages_of ps = (case lookup ps ''messages'' of VArr ms \<Rightarrow> ms | _ \<Rightarrow> [])"

text \<open>
  A weaker layout, for a session that an operation has just built from arguments of any
  kind: distinct properties, valid dates, and an array of objects as messages. What such
  a session and its messages are after saving and loading is \<open>reloaded\<close> and
  \<open>reloaded_message\<close>.
\<close>

definition is_object :: "jsval \<Rightarrow> bool" where
  "is_object v = (case v of VObj ps \<Rightarrow> True | _ \<Rightarrow> False)"

definition loadable :: "obj \<Rightarrow> bool" where
  "loadable ps \<longleftrightarrow>
     distinct (map fst ps) \<and>
     is_date (lookup ps ''createdAt'') \<and> is_date (lookup ps ''updatedAt'') \<and>
     (case lookup ps ''messages'' of
        VArr ms \<Rightarrow> \<forall>m\<in>set ms. is_object m
      | _ \<Rightarrow> False)"

text \<open>The properties of an object after \<^verbatim>\<open>JSON.stringify\<close> and \<^verbatim>\<open>JSON.parse\<close>:
  those with the value \<^verbatim>\<open>undefined\<close> are gone.\<close>

definition kept :: "platform \<Rightarrow> obj \<Rightarrow> obj" where
  "kept pf ps = List.map_filter (\<lambda>(k, v). map_option (\<lambda>j. (k, of_json j)) (to_json pf v)) ps"

definition reloaded_message :: "platform \<Rightarrow> jsval \<Rightarrow> jsval" where
  "reloaded_message pf m =
     (case revive_message pf (reparse pf m) of None \<Rightarrow> VUndefined | Some m' \<Rightarrow> m')"

definition reloaded :: "platform \<Rightarrow> obj \<Rightarrow> obj" where
  "reloaded pf ps =
     (case revive_session pf (reparse pf (VObj ps)) of None \<Rightarrow> [] | Some ps' \<Rightarrow> ps')"

section \<open>What the operations leave behind\<close>

text \<open>The session that \<^verbatim>\<open>addMessage\<close>, \<^verbatim>\<open>updateSessionName\<close> and
  \<^verbatim>\<open>updateSessionSettings\<close> put in the place of the one they find.\<close>

definition with_message :: "obj \<Rightarrow> obj \<Rightarrow> int \<Rightarrow> obj" where
  "with_message session new now =
     set_prop ''updatedAt'' (VDate (Some now))
       (set_prop ''messages'' (VArr (messages_of session @ [VObj new])) session)"

definition with_name :: "obj \<Rightarrow> string \<Rightarrow> int \<Rightarrow> obj" where
  "with_name session name now =
     set_prop ''updatedAt'' (VDate (Some now)) (set_prop ''name'' (VStr name) session)"

definition with_settings :: "obj \<Rightarrow> obj \<Rightarrow> int \<Rightarrow> obj" where
  "with_settings session settings now =
     set_prop ''updatedAt'' (VDate (Some now))
       (set_prop ''settings''
          (VObj (merge_props (spread (lookup session ''settings'')) settings)) session)"

text \<open>A session carries an earlier one on: same id, same creation date, and the earlier
  messages at the front of its messages, in their order.\<close>

definition carries_on :: "obj \<Rightarrow> obj \<Rightarrow> bool" where
  "carries_on old new \<longleftrightarrow>
     lookup new ''id'' = lookup old ''id'' \<and>
     lookup new ''createdAt'' = lookup old ''createdAt'' \<and>
     take (length (messages_of old)) (messages_of new) = messages_of old"

text \<open>Every session of a collection is carried on, in its place, by the session of
  another collection.\<close>

definition carried_on :: "obj list \<Rightarrow> obj list \<Rightarrow> bool" where
  "carried_on old new \<longleftrightarrow>
     length new = length old \<and> (\<forall>j<length old. carries_on (old ! j) (new ! j))"

definition created_before :: "obj \<Rightarrow> int \<Rightarrow> bool" where
  "created_before ps t = (case lookup ps ''createdAt'' of VDate (Some c) \<Rightarrow> c \<le> t | _ \<Rightarrow> False)"

text \<open>The clock does not run backwards: within \<^verbatim>\<open>createSession\<close> from the first
  \<^verbatim>\<open>new Date()\<close> to the second, and otherwise from the creation of the stored
  sessions to the time that the operation writes.\<close>

fun clock_ok :: "obj list \<Rightarrow> operation \<Rightarrow> bool" where
  "clock_ok xs (CreateSession name settings r) = (date1 r \<le> date2 r)"
| "clock_ok xs (UpdateSessionName sessionId name now) = (\<forall>ps\<in>set xs. created_before ps now)"
| "clock_ok xs (AddMessage sessionId message r) = (\<forall>ps\<in>set xs. created_before ps (date2 r))"
| "clock_ok xs (UpdateSessionSettings sessionId settings now) =
     (\<forall>ps\<in>set xs. created_before ps now)"

section \<open>A concrete platform\<close>

text \<open>
  For evaluating the model on examples: a platform whose date strings are the decimal
  numerals of the time value (\<^verbatim>\<open>new Date\<close> of anything else but \<^verbatim>\<open>null\<close> is an
  Invalid Date).
\<close>

definition digit_value :: "char \<Rightarrow> nat option" where
  "digit_value c = findIndex (\<lambda>d. d = c) ''0123456789abcdefghijklmnopqrstuvwxyz''"

fun number_of :: "nat \<Rightarrow> nat \<Rightarrow> string \<Rightarrow> nat option" where
  "number_of b acc [] = Some acc"
| "number_of b acc (c # cs) =
     (case digit_value c of
        None \<Rightarrow> None
      | Some d \<Rightarrow> if d < b then number_of b (acc * b + d) cs else None)"

definition parse_int :: "nat \<Rightarrow> string \<Rightarrow> int option" where
  "parse_int radix s =
     (case s of
        [] \<Rightarrow> None
      | c # cs \<Rightarrow>
          (case number_of radix 0 s of
             Some n \<Rightarrow> Some (int n)
           | None \<Rightarrow> if c = CHR ''-'' then map_option (\<lambda>n. - int n) (number_of radix 0 cs)
                     else None))"

definition decimal_platform :: platform where
  "decimal_platform =
     \<lparr>new_Date = (\<lambda>v. case v of VStr s \<Rightarrow> parse_int 10 s | VNull \<Rightarrow> Some 0 | _ \<Rightarrow> None),
      toISOString = toString 10\<rparr>"

definition empty_browser :: browser where
  "empty_browser =
     \<lparr>chat_item = None, license_item = None, denied = False, quota_full = False,
      dispatched = []\<rparr>"

section \<open>Example data\<close>

definition example_record :: json where
  "example_record =
     JObj [(''id'', JStr ''s1''), (''name'', JStr ''First chat''),
           (''messages'', JArr [JObj [(''role'', JStr ''user''), (''content'', JStr ''hello''),
                                     (''id'', JStr ''m1''), (''timestamp'', JStr ''1200'')]]),
           (''createdAt'', JStr ''1000''), (''updatedAt'', JStr ''1200''),
           (''settings'', JObj [(''model'', JStr ''gpt-4o-mini''), (''temperature'', JNum 0),
                                (''search_type'', JStr ''hybrid'')])]"

definition record_without_model :: json where
  "record_without_model =
     JObj [(''id'', JStr ''s2''), (''name'', JStr ''Second chat''), (''messages'', JArr []),
           (''createdAt'', JStr ''2000''), (''updatedAt'', JStr ''2000''),
           (''settings'', JObj [(''temperature'', JNum 0), (''search_type'', JStr ''hybrid'')])]"

definition shape_only_payload :: json where
  "shape_only_payload =
     JArr [JObj [(''id'', JStr ''s3''), (''name'', JStr ''imported''),
                 (''messages'', JArr [JNull, JNum 5]),
                 (''settings'', JObj [(''model'', JStr ''gpt-4o''), (''temperature'', JNum 7),
                                      (''search_type'', JStr ''keyword'')])]]"

definition example_store :: browser where
  "example_store = empty_browser\<lparr>chat_item := Some (Json (JArr [example_record]))\<rparr>"

definition example_settings :: jsval where
  "example_settings =
     VObj [(''model'', VStr ''gpt-4o-mini''), (''temperature'', VNum 0),
           (''search_type'', VStr ''hybrid'')]"

definition example_reads :: reads where
  "example_reads = \<lparr>date_now = 100, random36 = ''abc'', date1 = 100, date2 = 101\<rparr>"

definition numbered_call :: "nat \<Rightarrow> string \<times> jsval \<times> reads" where
  "numbered_call n =
     (''New Chat'', example_settings,
      \<lparr>date_now = int n, random36 = ''abc'', date1 = int n, date2 = int n\<rparr>)"

definition many_calls :: "(string \<times> jsval \<times> reads) list" where
  "many_calls = map numbered_call [0..<51]"

definition unreadable_records :: "json list" where
  "unreadable_records =
     [example_record, JObj [(''id'', JStr ''s9''), (''name'', JStr ''no messages'')]]"

definition example_session :: obj where
  "example_session =
     [(''id'', VStr ''s1''), (''name'', VStr ''First chat''),
      (''messages'', VArr [VObj [(''role'', VStr ''user''), (''content'', VStr ''hello''),
                                (''id'', VStr ''m1''), (''timestamp'', VDate (Some 1200))]]),
      (''createdAt'', VDate (Some 1000)), (''updatedAt'', VDate (Some 1200)),
      (''settings'', VObj [(''model'', VStr ''gpt-4o-mini''), (''temperature'', VNum 0),
                           (''search_type'', VStr ''hybrid'')])]"

definition example_message :: obj where
  "example_message = [(''role'', VStr ''user''), (''content'', VStr ''and another'')]"

definition second_record :: json where
  "second_record =
     JObj [(''id'', JStr ''s2''), (''name'', JStr ''Second chat''), (''messages'', JArr []),
           (''createdAt'', JStr ''2000''), (''updatedAt'', JStr ''2000''),
           (''settings'', JObj [(''model'', JStr ''gpt-4o''), (''temperature'', JNum 1),
                                (''search_type'', JStr ''semantic'')])]"

definition two_session_store :: browser where
  "two_session_store =
     empty_browser\<lparr>chat_item := Some (Json (JArr [example_record, second_record]))\<rparr>"

definition backdated_record :: json where
  "backdated_record =
     JObj [(''id'', JStr ''s1''), (''name'', JStr ''First chat''), (''messages'', JArr []),
           (''createdAt'', JStr ''2000''), (''updatedAt'', JStr ''1000''),
           (''settings'', JObj [(''model'', JStr ''gpt-4o-mini''), (''temperature'', JNum 0),
                                (''search_type'', JStr ''hybrid'')])]"

definition later_reads :: reads where
  "later_reads = \<lparr>date_now = 1300, random36 = ''xyz'', date1 = 1300, date2 = 1301\<rparr>"

definition backdated_session :: obj where
  "backdated_session =
     [(''id'', VStr ''s1''), (''name'', VStr ''First chat''), (''messages'', VArr []),
      (''createdAt'', VDate (Some 2000)), (''updatedAt'', VDate (Some 1000)),
      (''settings'', VObj [(''model'', VStr ''gpt-4o-mini''), (''temperature'', VNum 0),
                           (''search_type'', VStr ''hybrid'')])]"

definition sparse_message :: obj where
  "sparse_message =
     [(''role'', VStr ''assistant''), (''content'', VStr ''an answer''),
      (''metadata'', VObj [(''documents_retrieved'', VUndefined), (''processing_time'', VUndefined),
                          (''search_type'', VStr ''hybrid'')])]"

definition other_reads :: reads where
  "other_reads = \<lparr>date_now = 100, random36 = ''xyz'', date1 = 100, date2 = 101\<rparr>"

section \<open>Saving and loading\<close>

lemma map_filter_map_Some:
  "(\<And>x. x \<in> set xs \<Longrightarrow> f (g x) = Some (h x)) \<Longrightarrow> List.map_filter f (map g xs) = map h xs"
  by (induction xs) simp_all

lemma to_json_of_json: "to_json pf (of_json j) = Some j"
proof (induction j rule: of_json.induct)
  case (5 xs)
  then show ?case by (simp add: map_idI)
next
  case (6 ps)
  have "List.map_filter (\<lambda>(k, jo). map_option (Pair k) jo)
          (map (\<lambda>p. (case p of (k, v) \<Rightarrow> (k, to_json pf v)) ) (map (\<lambda>(k, j). (k, of_json j)) ps))
        = map id (map id ps)"
    unfolding map_map
    by (rule map_filter_map_Some) (use 6 in \<open>auto\<close>)
  then show ?case by simp
qed simp_all

lemma to_json_None_iff: "to_json pf v = None \<longleftrightarrow> v = VUndefined"
  by (cases v) (auto split: option.splits)

lemma to_json_VObj:
  assumes "\<forall>(k, v)\<in>set ps. v \<noteq> VUndefined"
  shows "to_json pf (VObj ps) = Some (JObj (map (\<lambda>(k, v). (k, jsonify pf v)) ps))"
proof -
  have "List.map_filter (\<lambda>(k, jo). map_option (Pair k) jo) (map (\<lambda>(k, v). (k, to_json pf v)) ps)
        = map (\<lambda>(k, v). (k, jsonify pf v)) ps"
  proof (rule map_filter_map_Some)
    fix x assume "x \<in> set ps"
    with assms have "snd x \<noteq> VUndefined" by auto
    then obtain j where "to_json pf (snd x) = Some j"
      using to_json_None_iff [of pf "snd x"] by auto
    then show "(case case x of (k, v) \<Rightarrow> (k, to_json pf v) of (k, jo) \<Rightarrow> map_option (Pair k) jo)
               = Some (case x of (k, v) \<Rightarrow> (k, jsonify pf v))"
      by (cases x) (simp add: jsonify_def)
  qed
  then show ?thesis by simp
qed

lemma reparse_VObj:
  assumes "\<forall>(k, v)\<in>set ps. v \<noteq> VUndefined"
  shows "reparse pf (VObj ps) = VObj (map (\<lambda>(k, v). (k, reparse pf v)) ps)"
  using to_json_VObj [OF assms, of pf]
  by (simp add: reparse_def jsonify_def case_prod_beta comp_def)

lemma reparse_VArr: "reparse pf (VArr xs) = VArr (map (reparse pf) xs)"
  by (simp add: reparse_def jsonify_def comp_def)

lemma reparse_VDate: "reparse pf (VDate (Some t)) = VStr (toISOString pf t)"
  by (simp add: reparse_def jsonify_def)

lemma plain_not_undefined: "plain v \<Longrightarrow> v \<noteq> VUndefined"
  by auto

lemma reparse_plain: "plain v \<Longrightarrow> reparse pf v = v"
proof (induction v rule: plain.induct)
  case (3 xs)
  then show ?case by (simp add: reparse_VArr map_idI)
next
  case (4 ps)
  then have "\<forall>(k, v)\<in>set ps. v \<noteq> VUndefined" by auto
  then have "reparse pf (VObj ps) = VObj (map (\<lambda>(k, v). (k, reparse pf v)) ps)"
    by (rule reparse_VObj)
  moreover have "map (\<lambda>(k, v). (k, reparse pf v)) ps = ps"
    by (rule map_idI) (use 4 in auto)
  ultimately show ?case by simp
qed (simp_all add: reparse_def jsonify_def)

lemma plain_of_json: "plain (of_json j)"
  by (induction j rule: of_json.induct) auto

lemma lookup_in: "distinct (map fst ps) \<Longrightarrow> (k, v) \<in> set ps \<Longrightarrow> lookup ps k = v"
  by (simp add: lookup_def)

lemma lookup_present: "lookup ps k \<noteq> VUndefined \<Longrightarrow> (k, lookup ps k) \<in> set ps"
  by (auto simp: lookup_def split: option.splits dest: map_of_SomeD)

lemma set_prop_map:
  "distinct (map fst ps) \<Longrightarrow> k \<in> fst ` set ps \<Longrightarrow>
   set_prop k v ps = map (\<lambda>(k', v'). (k', if k' = k then v else v')) ps"
proof (induction ps)
  case Nil
  then show ?case by simp
next
  case (Cons p ps)
  obtain k' v' where p: "p = (k', v')" by (cases p)
  show ?case
  proof (cases "k' = k")
    case True
    with Cons.prems p have "k \<notin> fst ` set ps" by auto
    then have "map (\<lambda>(k', v'). (k', if k' = k then v else v')) ps = ps"
      by (intro map_idI) force
    with True p show ?thesis by simp
  next
    case False
    with Cons p show ?thesis by auto
  qed
qed

lemma fst_set_prop: "fst ` set (set_prop k v ps) = insert k (fst ` set ps)"
  by (induction k v ps rule: set_prop.induct) (simp_all add: insert_commute)

lemma distinct_set_prop: "distinct (map fst ps) \<Longrightarrow> distinct (map fst (set_prop k v ps))"
  by (induction ps) (auto simp: fst_set_prop)

lemma lookup_set_prop: "lookup (set_prop k v ps) k' = (if k' = k then v else lookup ps k')"
  by (induction ps) (auto simp: lookup_def)

lemma in_set_prop:
  "(k', v') \<in> set (set_prop k v ps) \<Longrightarrow> (k' = k \<and> v' = v) \<or> (k', v') \<in> set ps"
  by (induction ps) (auto split: if_splits)

lemma lookup_map_values:
  "lookup (map (\<lambda>(k, v). (k, f v)) ps) k =
     (case map_of ps k of None \<Rightarrow> VUndefined | Some v \<Rightarrow> f v)"
  by (induction ps) (auto simp: lookup_def)

lemma is_dateE: "is_date v \<Longrightarrow> \<exists>t. v = VDate (Some t)"
  by (auto simp: is_date_def split: jsval.splits option.splits)

lemma lookup_map_values_present:
  "lookup ps k \<noteq> VUndefined \<Longrightarrow> lookup (map (\<lambda>(k, v). (k, f v)) ps) k = f (lookup ps k)"
  unfolding lookup_map_values by (auto simp: lookup_def split: option.splits)

lemma reload_message:
  assumes rt: "iso_roundtrip pf" and wf: "well_formed_message m"
  shows "revive_message pf (reparse pf m) = Some m"
proof -
  from wf obtain qs where m: "m = VObj qs" and d: "distinct (map fst qs)"
    and ts: "is_date (lookup qs ''timestamp'')"
    and pl: "\<forall>(k, v)\<in>set qs. k \<noteq> ''timestamp'' \<longrightarrow> plain v"
    by (auto simp: well_formed_message_def split: jsval.splits)
  from ts obtain t where t: "lookup qs ''timestamp'' = VDate (Some t)"
    by (auto dest: is_dateE)
  then have tin: "(''timestamp'', VDate (Some t)) \<in> set qs"
    using lookup_present [of qs "''timestamp''"] by simp
  have nu: "\<forall>(k, v)\<in>set qs. v \<noteq> VUndefined"
  proof clarify
    fix k assume kv: "(k, VUndefined) \<in> set qs"
    show False
    proof (cases "k = ''timestamp''")
      case True
      with kv d t show False using lookup_in [OF d kv] by simp
    next
      case False
      with pl kv show False by auto
    qed
  qed
  let ?R = "map (\<lambda>(k, v). (k, reparse pf v)) qs"
  have R: "reparse pf (VObj qs) = VObj ?R" by (rule reparse_VObj [OF nu])
  have lR: "lookup ?R ''timestamp'' = VStr (toISOString pf t)"
    using lookup_map_values_present [of qs "''timestamp''" "reparse pf"] t
    by (simp add: reparse_VDate)
  have dR: "distinct (map fst ?R)" using d by (simp add: comp_def case_prod_beta)
  have kR: "''timestamp'' \<in> fst ` set ?R" using tin by force
  have "set_prop ''timestamp'' (VDate (Some t)) ?R = qs"
    unfolding set_prop_map [OF dR kR] map_map
  proof (rule map_idI)
    fix x assume x: "x \<in> set qs"
    obtain k v where kv: "x = (k, v)" by (cases x)
    show "((\<lambda>(k', v'). (k', if k' = ''timestamp'' then VDate (Some t) else v')) \<circ>
           (\<lambda>(k, v). (k, reparse pf v))) x = x"
    proof (cases "k = ''timestamp''")
      case True
      with x kv t lookup_in [OF d, of k v] show ?thesis by simp
    next
      case False
      with pl x kv have "plain v" by auto
      with False kv show ?thesis by (simp add: reparse_plain)
    qed
  qed
  with rt lR show ?thesis
    by (simp add: R m revive_message_def iso_roundtrip_def)
qed

lemma map_fst_set_prop: "k \<in> fst ` set ps \<Longrightarrow> map fst (set_prop k v ps) = map fst ps"
  by (induction k v ps rule: set_prop.induct) auto

lemma alist_eqI:
  "map fst ps = map fst qs \<Longrightarrow> distinct (map fst ps) \<Longrightarrow>
   (\<And>k. k \<in> fst ` set ps \<Longrightarrow> lookup ps k = lookup qs k) \<Longrightarrow> ps = (qs :: obj)"
proof (induction ps arbitrary: qs)
  case Nil
  then show ?case by simp
next
  case (Cons p ps)
  then obtain q qs' where qs: "qs = q # qs'" by (cases qs) auto
  obtain k v where p: "p = (k, v)" by (cases p)
  obtain k' v' where q: "q = (k', v')" by (cases q)
  from Cons.prems(1) qs p q have k: "k' = k" and keys: "map fst ps = map fst qs'" by auto
  from Cons.prems(3) [of k] p q qs k have v: "v' = v" by (simp add: lookup_def)
  have "ps = qs'"
  proof (rule Cons.IH [OF keys])
    show "distinct (map fst ps)" using Cons.prems(2) by simp
  next
    fix x assume x: "x \<in> fst ` set ps"
    with Cons.prems(2) p have "x \<noteq> k" by auto
    with Cons.prems(3) [of x] x p q qs k show "lookup ps x = lookup qs' x"
      by (simp add: lookup_def)
  qed
  with p q qs k v show ?case by simp
qed

lemma those_map_Some:
  "(\<And>x. x \<in> set xs \<Longrightarrow> f x = Some (g x)) \<Longrightarrow> those (map f xs) = Some (map g xs)"
  by (induction xs) simp_all

lemma reload_session:
  assumes rt: "iso_roundtrip pf" and wf: "well_formed_session ps"
  shows "revive_session pf (reparse pf (VObj ps)) = Some ps"
proof -
  from wf have d: "distinct (map fst ps)"
    and dc: "is_date (lookup ps ''createdAt'')" and du: "is_date (lookup ps ''updatedAt'')"
    and pl: "\<forall>(k, v)\<in>set ps. k \<notin> {''createdAt'', ''updatedAt'', ''messages''} \<longrightarrow> plain v"
    by (auto simp: well_formed_session_def)
  from wf obtain ms where m: "lookup ps ''messages'' = VArr ms"
    and wms: "\<forall>m\<in>set ms. well_formed_message m"
    by (auto simp: well_formed_session_def split: jsval.splits)
  from dc obtain tc where c: "lookup ps ''createdAt'' = VDate (Some tc)"
    by (auto dest: is_dateE)
  from du obtain tu where u: "lookup ps ''updatedAt'' = VDate (Some tu)"
    by (auto dest: is_dateE)
  have val: "v = VDate (Some tc) \<or> v = VDate (Some tu) \<or> v = VArr ms \<or> plain v"
    if "(k, v) \<in> set ps" for k v
    using that pl c u m lookup_in [OF d that] by auto
  have nu: "\<forall>(k, v)\<in>set ps. v \<noteq> VUndefined"
    using val by fastforce
  let ?R = "map (\<lambda>(k, v). (k, reparse pf v)) ps"
  have R: "reparse pf (VObj ps) = VObj ?R" by (rule reparse_VObj [OF nu])
  have lR: "lookup ?R k = reparse pf (lookup ps k)" if "k \<in> fst ` set ps" for k
  proof -
    from that obtain v where kv: "(k, v) \<in> set ps" by auto
    with nu have "v \<noteq> VUndefined" by auto
    with lookup_in [OF d kv] show ?thesis
      by (simp add: lookup_map_values_present)
  qed
  have kc: "''createdAt'' \<in> fst ` set ps" using lookup_present [of ps "''createdAt''"] c by force
  have ku: "''updatedAt'' \<in> fst ` set ps" using lookup_present [of ps "''updatedAt''"] u by force
  have km: "''messages'' \<in> fst ` set ps" using lookup_present [of ps "''messages''"] m by force
  have fR: "map fst ?R = map fst ps" by (simp add: comp_def case_prod_beta)
  have sR: "fst ` set ?R = fst ` set ps" by force
  have ms: "those (map (revive_message pf) (map (reparse pf) ms)) = Some (map id ms)"
    unfolding map_map
    by (rule those_map_Some) (use wms rt in \<open>simp add: reload_message\<close>)
  let ?S = "set_prop ''messages'' (VArr ms)
              (set_prop ''updatedAt'' (VDate (Some tu))
                (set_prop ''createdAt'' (VDate (Some tc)) ?R))"
  have "?S = ps"
  proof (rule alist_eqI)
    have k1: "''createdAt'' \<in> fst ` set ?R" unfolding sR by (rule kc)
    have k2: "''updatedAt'' \<in> fst ` set (set_prop ''createdAt'' (VDate (Some tc)) ?R)"
      unfolding fst_set_prop sR using ku by blast
    have k3: "''messages'' \<in> fst ` set (set_prop ''updatedAt'' (VDate (Some tu))
                (set_prop ''createdAt'' (VDate (Some tc)) ?R))"
      unfolding fst_set_prop sR using km by blast
    show "map fst ?S = map fst ps"
      by (simp only: map_fst_set_prop [OF k1] map_fst_set_prop [OF k2]
          map_fst_set_prop [OF k3] fR)
    show "distinct (map fst ?S)"
      using d by (intro distinct_set_prop) (simp only: fR)
  next
    fix k assume "k \<in> fst ` set ?S"
    then have k: "k \<in> fst ` set ps" unfolding fst_set_prop sR using kc ku km by blast
    then obtain v where kv: "(k, v) \<in> set ps" by auto
    have lv: "lookup ps k = v" by (rule lookup_in [OF d kv])
    show "lookup ?S k = lookup ps k"
    proof (cases "k \<in> {''createdAt'', ''updatedAt'', ''messages''}")
      case True
      with c u m show ?thesis by (auto simp: lookup_set_prop)
    next
      case False
      with pl kv have "plain v" by auto
      with False lv show ?thesis by (simp add: lookup_set_prop lR [OF k] reparse_plain)
    qed
  qed
  moreover have "get_prop (VObj ?R) ''createdAt'' = Some (VStr (toISOString pf tc))"
    using lR [OF kc] c by (simp add: reparse_VDate)
  moreover have "get_prop (VObj ?R) ''updatedAt'' = Some (VStr (toISOString pf tu))"
    using lR [OF ku] u by (simp add: reparse_VDate)
  moreover have "get_prop (VObj ?R) ''messages'' = Some (VArr (map (reparse pf) ms))"
    using lR [OF km] m by (simp add: reparse_VArr)
  ultimately show ?thesis
    using rt ms by (simp add: R revive_session_def iso_roundtrip_def)
qed

lemma getSessions_saveSessions:
  assumes "iso_roundtrip pf" and "storage_ok st" and "\<forall>ps\<in>set xs. well_formed_session ps"
  shows "getSessions pf (saveSessions pf st (map VObj xs)) = xs"
proof -
  have "those (map (revive_session pf) (map of_json (map (jsonify pf) (map VObj xs)))) = Some (map id xs)"
    unfolding map_map
    by (rule those_map_Some) (use assms reload_session in \<open>simp add: reparse_def\<close>)
  with assms(2) show ?thesis
    by (simp add: getSessions_def getSessions_try_def saveSessions_def stringify_array_def
        storage_ok_def jsonify_def comp_def)
qed

section \<open>The operations keep the persisted layout\<close>

lemma findIndex_Some: "findIndex P xs = Some i \<Longrightarrow> i < length xs \<and> P (xs ! i) \<and> (\<forall>j<i. \<not> P (xs ! j))"
proof (induction xs arbitrary: i)
  case Nil
  then show ?case by simp
next
  case (Cons x xs)
  show ?case
  proof (cases "P x")
    case True
    with Cons.prems show ?thesis by simp
  next
    case False
    with Cons.prems obtain i' where i': "findIndex P xs = Some i'" "i = Suc i'" by auto
    from Cons.IH [OF i'(1)] False i'(2) show ?thesis
      by (auto simp: less_Suc_eq_0_disj)
  qed
qed

lemma findIndex_None: "findIndex P xs = None \<longleftrightarrow> (\<forall>x\<in>set xs. \<not> P x)"
  by (induction xs) auto

lemma findIndex_first: "i < length xs \<Longrightarrow> P (xs ! i) \<Longrightarrow> \<forall>j<i. \<not> P (xs ! j) \<Longrightarrow> findIndex P xs = Some i"
proof (induction xs arbitrary: i)
  case Nil
  then show ?case by simp
next
  case (Cons x xs)
  show ?case
  proof (cases i)
    case 0
    with Cons.prems show ?thesis by simp
  next
    case (Suc i')
    with Cons.prems have "\<not> P x" by auto
    moreover have "findIndex P xs = Some i'"
      using Cons.prems Suc by (intro Cons.IH) auto
    ultimately show ?thesis using Suc by simp
  qed
qed

lemma storage_ok_saveSessions [simp]: "storage_ok (saveSessions pf st xs) = storage_ok st"
  by (simp add: storage_ok_def saveSessions_def)

lemma well_formed_set_prop:
  assumes wf: "well_formed_session ps"
    and "k = ''createdAt'' \<or> k = ''updatedAt'' \<Longrightarrow> is_date v"
    and "k = ''messages'' \<Longrightarrow> \<exists>ms. v = VArr ms \<and> (\<forall>m\<in>set ms. well_formed_message m)"
    and "k \<notin> {''createdAt'', ''updatedAt'', ''messages''} \<Longrightarrow> plain v"
  shows "well_formed_session (set_prop k v ps)"
proof -
  have "plain v'" if "(k', v') \<in> set (set_prop k v ps)"
    "k' \<notin> {''createdAt'', ''updatedAt'', ''messages''}" for k' v'
    using in_set_prop [OF that(1)] that(2) assms(4) wf
    by (auto simp: well_formed_session_def)
  then have "\<forall>(k', v')\<in>set (set_prop k v ps).
      k' \<notin> {''createdAt'', ''updatedAt'', ''messages''} \<longrightarrow> plain v'"
    by blast
  moreover have "distinct (map fst (set_prop k v ps))"
    using wf by (simp add: well_formed_session_def distinct_set_prop)
  moreover have "is_date (lookup (set_prop k v ps) ''createdAt'')"
    "is_date (lookup (set_prop k v ps) ''updatedAt'')"
    using wf assms(2) by (auto simp: well_formed_session_def lookup_set_prop)
  moreover have "case lookup (set_prop k v ps) ''messages'' of
        VArr ms \<Rightarrow> \<forall>m\<in>set ms. well_formed_message m | _ \<Rightarrow> False"
    using wf assms(3) by (auto simp: well_formed_session_def lookup_set_prop)
  ultimately show ?thesis
    unfolding well_formed_session_def by blast
qed

lemma well_formed_newSession:
  "plain settings \<Longrightarrow> well_formed_session (newSession name settings r)"
  by (simp add: well_formed_session_def newSession_def lookup_def is_date_def)

lemma plain_set_prop:
  "plain (VObj ps) \<Longrightarrow> plain v \<Longrightarrow> plain (VObj (set_prop k v ps))"
  by (auto dest: in_set_prop)

lemma well_formed_newMessage:
  assumes "plain (VObj message)" and "distinct (map fst message)"
  shows "well_formed_message (VObj (newMessage message r))"
proof -
  let ?ps = "set_prop ''id'' (VStr (generateId (date_now r) (random36 r))) message"
  have "plain v" if "(k, v) \<in> set (newMessage message r)" "k \<noteq> ''timestamp''" for k v
  proof -
    from that have "(k, v) \<in> set ?ps"
      unfolding newMessage_def by (auto dest: in_set_prop)
    then show ?thesis using assms(1) by (auto dest: in_set_prop)
  qed
  then show ?thesis
    using assms(2)
    by (auto simp: well_formed_message_def newMessage_def distinct_set_prop lookup_set_prop
        is_date_def)
qed

lemma plain_indexed: "\<forall>x\<in>set xs. plain x \<Longrightarrow> plain (VObj (indexed xs))"
  by (auto simp: indexed_def in_set_enumerate_eq)

lemma plain_spread: "plain v \<or> v = VUndefined \<Longrightarrow> plain (VObj (spread v))"
proof (cases v)
  case (VStr s)
  have "plain (VObj (indexed (map (\<lambda>c. VStr [c]) s)))"
    by (rule plain_indexed) simp
  with VStr show ?thesis by simp
next
  case (VArr xs)
  assume "plain v \<or> v = VUndefined"
  with VArr have "plain (VObj (indexed xs))"
    by (intro plain_indexed) simp
  with VArr show ?thesis by simp
qed auto

lemma plain_merge_props:
  "plain (VObj ps) \<Longrightarrow> plain (VObj qs) \<Longrightarrow> plain (VObj (merge_props ps qs))"
  unfolding merge_props_def
proof (induction qs arbitrary: ps)
  case Nil
  then show ?case by simp
next
  case (Cons q qs)
  obtain k v where q: "q = (k, v)" by (cases q)
  with Cons.prems have "plain (VObj (set_prop k v ps))" "plain (VObj qs)"
    by (auto dest: in_set_prop)
  from Cons.IH [OF this] q show ?case by simp
qed

lemma lookup_plain_or_undefined:
  assumes "well_formed_session ps" and "k \<notin> {''createdAt'', ''updatedAt'', ''messages''}"
  shows "plain (lookup ps k) \<or> lookup ps k = VUndefined"
  using assms lookup_present [of ps k] by (auto simp: well_formed_session_def)

lemma take_append_take: "take n (xs @ take n ys) = take n (xs @ ys)"
  by (simp add: min_def)

lemma createSession_step:
  assumes "iso_roundtrip pf" and "storage_ok st"
    and "\<forall>ps\<in>set (getSessions pf st). well_formed_session ps" and "plain settings"
  shows "getSessions pf (fst (createSession pf st name settings r))
         = take MAX_SESSIONS (newSession name settings r # getSessions pf st)"
proof -
  let ?all = "newSession name settings r # getSessions pf st"
  have wf: "\<forall>ps\<in>set (take MAX_SESSIONS ?all). well_formed_session ps"
    using assms(3,4) well_formed_newSession [of settings name r]
    by (auto dest!: in_set_takeD)
  have "fst (createSession pf st name settings r)
        = saveSessions pf st (map VObj (take MAX_SESSIONS ?all))"
    by (simp add: createSession_def Let_def)
  then show ?thesis
    using getSessions_saveSessions [OF assms(1,2) wf] by simp
qed

lemma createSession_storage_ok:
  "storage_ok (fst (createSession pf st name settings r)) = storage_ok st"
  by (simp add: createSession_def Let_def)

section \<open>Numerals\<close>

lemma findIndex_nth:
  assumes "distinct xs" and "d < length xs"
  shows "findIndex (\<lambda>x. x = xs ! d) xs = Some d"
proof (rule findIndex_first)
  show "\<forall>j<d. \<not> xs ! j = xs ! d"
    using assms by (auto simp: nth_eq_iff_index_eq)
qed (use assms in simp_all)

lemma digit_value_digit_char: "d < 36 \<Longrightarrow> digit_value (digit_char d) = Some d"
  unfolding digit_value_def digit_char_def
  by (rule findIndex_nth) simp_all

lemma digit_value_minus: "digit_value CHR ''-'' = None"
  by (simp add: digit_value_def)

lemma digits_not_Nil: "digits b n \<noteq> []"
  by (subst digits.simps) simp

lemma number_of_digits:
  "2 \<le> b \<Longrightarrow> b \<le> 36 \<Longrightarrow> number_of b 0 (digits b n @ rest) = number_of b n rest"
proof (induction b n arbitrary: rest rule: digits.induct)
  case (1 b n)
  show ?case
  proof (cases "n < b")
    case True
    with 1(3) have "digit_value (digit_char n) = Some n"
      by (intro digit_value_digit_char) simp
    with True show ?thesis
      by (subst digits.simps) simp
  next
    case False
    with 1(2) have nb: "\<not> (n < b \<or> b < 2)" by simp
    have m: "n mod b < b" using 1(2) by simp
    with 1(3) have dv: "digit_value (digit_char (n mod b)) = Some (n mod b)"
      by (intro digit_value_digit_char) simp
    have "number_of b 0 (digits b n @ rest)
          = number_of b 0 (digits b (n div b) @ digit_char (n mod b) # rest)"
      using nb by (subst digits.simps) simp
    also have "\<dots> = number_of b (n div b) (digit_char (n mod b) # rest)"
      by (rule 1(1) [OF nb 1(2,3)])
    also have "\<dots> = number_of b (n div b * b + n mod b) rest"
      using dv m by simp
    finally show ?thesis by simp
  qed
qed

lemma number_of_digits_all: "2 \<le> b \<Longrightarrow> b \<le> 36 \<Longrightarrow> number_of b 0 (digits b n) = Some n"
  using number_of_digits [of b n "[]"] by simp

lemma parse_int_toString:
  assumes "2 \<le> b" and "b \<le> 36"
  shows "parse_int b (toString b t) = Some t"
proof (cases "t < 0")
  case True
  have "number_of b 0 (CHR ''-'' # digits b (nat (- t))) = None"
    by (simp add: digit_value_minus)
  with True assms show ?thesis
    by (simp add: parse_int_def toString_def number_of_digits_all del: number_of.simps)
next
  case False
  obtain c cs where d: "digits b (nat t) = c # cs"
    using digits_not_Nil [of b "nat t"] by (cases "digits b (nat t)") auto
  have "number_of b 0 (c # cs) = Some (nat t)"
    using number_of_digits_all [OF assms, of "nat t"] unfolding d .
  then have "parse_int b (c # cs) = Some (int (nat t))"
    by (simp only: parse_int_def list.case option.case)
  moreover have "toString b t = c # cs"
    using False by (simp add: toString_def d)
  ultimately show ?thesis using False by simp
qed

lemma toString_inj:
  assumes "2 \<le> b" and "b \<le> 36" and "toString b t = toString b t'"
  shows "t = t'"
proof -
  have "Some t = parse_int b (toString b t)"
    by (simp only: parse_int_toString [OF assms(1,2)])
  also have "\<dots> = parse_int b (toString b t')"
    by (simp only: assms(3))
  also have "\<dots> = Some t'"
    by (simp only: parse_int_toString [OF assms(1,2)])
  finally show ?thesis by simp
qed

lemma iso_roundtrip_decimal: "iso_roundtrip decimal_platform"
  by (simp add: iso_roundtrip_def decimal_platform_def parse_int_toString)

section \<open>Replacing one session\<close>

lemma parse_int_examples:
  "parse_int 10 ''1000'' = Some 1000" "parse_int 10 ''1200'' = Some 1200"
  by (simp_all add: parse_int_def digit_value_def)

lemma getSessions_example_store: "getSessions decimal_platform example_store = [example_session]"
  by (simp add: getSessions_def getSessions_try_def example_store_def empty_browser_def
      example_record_def revive_session_def revive_message_def lookup_def decimal_platform_def
      parse_int_examples example_session_def)

lemma well_formed_example_session: "well_formed_session example_session"
  by (simp add: well_formed_session_def well_formed_message_def example_session_def lookup_def
      is_date_def)

lemma storage_ok_example_store: "storage_ok example_store"
  by (simp add: storage_ok_def example_store_def empty_browser_def)

lemma update_session_reload:
  assumes "iso_roundtrip pf" and "storage_ok st"
    and "\<forall>ps\<in>set (getSessions pf st). well_formed_session ps"
    and "well_formed_session s"
  shows "getSessions pf (saveSessions pf st (map VObj ((getSessions pf st)[i := s])))
         = (getSessions pf st)[i := s]"
proof (rule getSessions_saveSessions [OF assms(1,2)])
  show "\<forall>ps\<in>set ((getSessions pf st)[i := s]). well_formed_session ps"
    using assms(3,4) set_update_subset_insert [of "getSessions pf st" i s] by auto
qed

lemma addMessage_unknown:
  assumes "VStr sessionId \<notin> (\<lambda>s. lookup s ''id'') ` set (getSessions pf st)"
  shows "addMessage pf st sessionId message r = Some (st, None)"
proof -
  have "findIndex (\<lambda>s. lookup s ''id'' = VStr sessionId) (getSessions pf st) = None"
    using assms by (force simp: findIndex_None)
  then show ?thesis by (simp add: addMessage_def)
qed

lemma messages_of_well_formed:
  "well_formed_session ps \<Longrightarrow> lookup ps ''messages'' = VArr (messages_of ps)"
  by (auto simp: well_formed_session_def messages_of_def split: jsval.splits)

lemma well_formed_messages_of:
  "well_formed_session ps \<Longrightarrow> m \<in> set (messages_of ps) \<Longrightarrow> well_formed_message m"
  by (auto simp: well_formed_session_def messages_of_def split: jsval.splits)

lemma well_formed_with_message:
  assumes "well_formed_session ps" and "well_formed_message (VObj new)"
  shows "well_formed_session (with_message ps new now)"
  unfolding with_message_def
proof (rule well_formed_set_prop)
  show "well_formed_session (set_prop ''messages'' (VArr (messages_of ps @ [VObj new])) ps)"
    using assms by (intro well_formed_set_prop) (auto dest: well_formed_messages_of)
qed (simp_all add: is_date_def)

lemma addMessage_known:
  assumes rt: "iso_roundtrip pf" and ok: "storage_ok st"
    and wf: "\<forall>ps\<in>set (getSessions pf st). well_formed_session ps"
    and msg: "plain (VObj message)" "distinct (map fst message)"
    and i: "findIndex (\<lambda>s. lookup s ''id'' = VStr sessionId) (getSessions pf st) = Some i"
  shows "\<exists>st'. addMessage pf st sessionId message r = Some (st', Some (newMessage message r)) \<and>
           getSessions pf st'
             = (getSessions pf st)[i := with_message (getSessions pf st ! i) (newMessage message r) (date2 r)]"
proof -
  let ?xs = "getSessions pf st"
  let ?new = "newMessage message r"
  from findIndex_Some [OF i] have il: "i < length ?xs" by simp
  with wf have wfi: "well_formed_session (?xs ! i)" by simp
  have push: "push (lookup (?xs ! i) ''messages'') (VObj ?new)
              = Some (VArr (messages_of (?xs ! i) @ [VObj ?new]))"
    by (simp add: messages_of_well_formed [OF wfi])
  let ?s = "with_message (?xs ! i) ?new (date2 r)"
  have "addMessage pf st sessionId message r
        = Some (saveSessions pf st (map VObj (?xs[i := ?s])), Some ?new)"
    using i push by (simp add: addMessage_def with_message_def Let_def)
  moreover have "well_formed_session ?s"
    by (rule well_formed_with_message [OF wfi well_formed_newMessage [OF msg]])
  then have "getSessions pf (saveSessions pf st (map VObj (?xs[i := ?s]))) = ?xs[i := ?s]"
    by (rule update_session_reload [OF rt ok wf])
  ultimately show ?thesis by blast
qed

lemma lookup_newMessage:
  "lookup (newMessage message r) k =
     (if k = ''timestamp'' then VDate (Some (date1 r))
      else if k = ''id'' then VStr (generateId (date_now r) (random36 r))
      else lookup message k)"
  by (simp add: newMessage_def lookup_set_prop)

lemma lookup_with_message:
  "lookup (with_message ps new now) k =
     (if k = ''updatedAt'' then VDate (Some now)
      else if k = ''messages'' then VArr (messages_of ps @ [VObj new])
      else lookup ps k)"
  by (simp add: with_message_def lookup_set_prop)

lemma messages_of_with_message:
  "messages_of (with_message ps new now) = messages_of ps @ [VObj new]"
  by (simp add: messages_of_def lookup_with_message)

lemma lookup_merge_props_other:
  "k \<notin> fst ` set qs \<Longrightarrow> lookup (merge_props ps qs) k = lookup ps k"
  unfolding merge_props_def
  by (induction qs arbitrary: ps) (auto simp: lookup_set_prop)

lemma lookup_merge_props_given:
  "distinct (map fst qs) \<Longrightarrow> (k, v) \<in> set qs \<Longrightarrow> lookup (merge_props ps qs) k = v"
proof (induction qs arbitrary: ps)
  case Nil
  then show ?case by simp
next
  case (Cons q qs)
  obtain k' v' where q: "q = (k', v')" by (cases q)
  show ?case
  proof (cases "(k, v) \<in> set qs")
    case True
    with Cons.IH [of "set_prop k' v' ps"] Cons.prems(1) q show ?thesis
      by (simp add: merge_props_def)
  next
    case False
    with Cons.prems q have kv: "k' = k" "v' = v" by auto
    with Cons.prems(1) q have "k \<notin> fst ` set qs" by auto
    from lookup_merge_props_other [OF this, of "set_prop k v ps"] q kv show ?thesis
      by (simp add: merge_props_def lookup_set_prop)
  qed
qed

lemma lookup_with_settings:
  "lookup (with_settings ps settings now) k =
     (if k = ''updatedAt'' then VDate (Some now)
      else if k = ''settings'' then VObj (merge_props (spread (lookup ps ''settings'')) settings)
      else lookup ps k)"
  by (simp add: with_settings_def lookup_set_prop)

lemma lookup_with_name:
  "lookup (with_name ps name now) k =
     (if k = ''updatedAt'' then VDate (Some now)
      else if k = ''name'' then VStr name
      else lookup ps k)"
  by (simp add: with_name_def lookup_set_prop)

lemma well_formed_with_settings:
  assumes "well_formed_session ps" and "plain (VObj settings)"
  shows "well_formed_session (with_settings ps settings now)"
  unfolding with_settings_def
proof (rule well_formed_set_prop)
  have "plain (VObj (spread (lookup ps ''settings'')))"
    by (rule plain_spread) (rule lookup_plain_or_undefined [OF assms(1)], simp)
  then have "plain (VObj (merge_props (spread (lookup ps ''settings'')) settings))"
    using assms(2) by (rule plain_merge_props)
  then show "well_formed_session
      (set_prop ''settings'' (VObj (merge_props (spread (lookup ps ''settings'')) settings)) ps)"
    using assms(1) by (intro well_formed_set_prop) simp_all
qed (simp_all add: is_date_def)

lemma well_formed_with_name:
  assumes "well_formed_session ps"
  shows "well_formed_session (with_name ps name now)"
  unfolding with_name_def
proof (rule well_formed_set_prop)
  show "well_formed_session (set_prop ''name'' (VStr name) ps)"
    using assms by (intro well_formed_set_prop) simp_all
qed (simp_all add: is_date_def)

lemma updateSessionSettings_known:
  assumes rt: "iso_roundtrip pf" and ok: "storage_ok st"
    and wf: "\<forall>ps\<in>set (getSessions pf st). well_formed_session ps"
    and pl: "plain (VObj settings)"
    and i: "findIndex (\<lambda>s. lookup s ''id'' = VStr sessionId) (getSessions pf st) = Some i"
  shows "\<exists>st'. updateSessionSettings pf st sessionId settings now = (st', True) \<and>
           getSessions pf st'
             = (getSessions pf st)[i := with_settings (getSessions pf st ! i) settings now]"
proof -
  let ?xs = "getSessions pf st"
  from findIndex_Some [OF i] have il: "i < length ?xs" by simp
  with wf have wfi: "well_formed_session (?xs ! i)" by simp
  let ?s = "with_settings (?xs ! i) settings now"
  have "updateSessionSettings pf st sessionId settings now
        = (saveSessions pf st (map VObj (?xs[i := ?s])), True)"
    using i by (simp add: updateSessionSettings_def with_settings_def Let_def)
  moreover have "well_formed_session ?s"
    by (rule well_formed_with_settings [OF wfi pl])
  then have "getSessions pf (saveSessions pf st (map VObj (?xs[i := ?s]))) = ?xs[i := ?s]"
    by (rule update_session_reload [OF rt ok wf])
  ultimately show ?thesis by blast
qed

lemma updateSessionName_known:
  assumes rt: "iso_roundtrip pf" and ok: "storage_ok st"
    and wf: "\<forall>ps\<in>set (getSessions pf st). well_formed_session ps"
    and i: "findIndex (\<lambda>s. lookup s ''id'' = VStr sessionId) (getSessions pf st) = Some i"
  shows "\<exists>st'. updateSessionName pf st sessionId name now = (st', True) \<and>
           getSessions pf st'
             = (getSessions pf st)[i := with_name (getSessions pf st ! i) name now]"
proof -
  let ?xs = "getSessions pf st"
  from findIndex_Some [OF i] have il: "i < length ?xs" by simp
  with wf have wfi: "well_formed_session (?xs ! i)" by simp
  let ?s = "with_name (?xs ! i) name now"
  have "updateSessionName pf st sessionId name now
        = (saveSessions pf st (map VObj (?xs[i := ?s])), True)"
    using i by (simp add: updateSessionName_def with_name_def Let_def)
  moreover have "well_formed_session ?s"
    by (rule well_formed_with_name [OF wfi])
  then have "getSessions pf (saveSessions pf st (map VObj (?xs[i := ?s]))) = ?xs[i := ?s]"
    by (rule update_session_reload [OF rt ok wf])
  ultimately show ?thesis by blast
qed

section \<open>Export and import\<close>

lemma jsonify_of_json: "jsonify pf (of_json j) = j"
  by (simp add: jsonify_def to_json_of_json)

lemma well_formed_no_undefined:
  assumes "well_formed_session ps"
  shows "\<forall>(k, v)\<in>set ps. v \<noteq> VUndefined"
proof clarify
  fix k assume kv: "(k, VUndefined) \<in> set ps"
  from assms have d: "distinct (map fst ps)" by (simp add: well_formed_session_def)
  have l: "lookup ps k = VUndefined" by (rule lookup_in [OF d kv])
  show False
  proof (cases "k \<in> {''createdAt'', ''updatedAt'', ''messages''}")
    case True
    with assms l show False
      by (auto simp: well_formed_session_def is_date_def)
  next
    case False
    with assms kv show False by (auto simp: well_formed_session_def)
  qed
qed

lemma isValidSession_reparse:
  assumes wf: "well_formed_session ps"
  shows "isValidSession (reparse pf (VObj ps)) = isValidSession (VObj ps)"
proof -
  let ?R = "map (\<lambda>(k, v). (k, reparse pf v)) ps"
  have R: "reparse pf (VObj ps) = VObj ?R"
    by (rule reparse_VObj [OF well_formed_no_undefined [OF wf]])
  have same: "lookup ?R k = lookup ps k" if "k \<notin> {''createdAt'', ''updatedAt'', ''messages''}" for k
  proof (cases "map_of ps k")
    case None
    then show ?thesis unfolding lookup_map_values by (simp add: lookup_def)
  next
    case (Some v)
    then have "(k, v) \<in> set ps" by (rule map_of_SomeD)
    with wf that have "plain v" by (auto simp: well_formed_session_def)
    with Some show ?thesis unfolding lookup_map_values by (simp add: lookup_def reparse_plain)
  qed
  have m: "isArray (lookup ?R ''messages'')" "isArray (lookup ps ''messages'')"
  proof -
    from wf obtain ms where ms: "lookup ps ''messages'' = VArr ms"
      by (auto simp: well_formed_session_def split: jsval.splits)
    then show "isArray (lookup ps ''messages'')" by simp
    from ms have "lookup ?R ''messages'' = reparse pf (VArr ms)"
      using lookup_map_values_present [of ps "''messages''" "reparse pf"] by simp
    then show "isArray (lookup ?R ''messages'')" by (simp add: reparse_VArr)
  qed
  show ?thesis
    unfolding R isValidSession_def dot_def
    by (simp add: same m)
qed

lemma jsonify_reparse: "jsonify pf (reparse pf v) = jsonify pf v"
  by (simp add: reparse_def jsonify_of_json)

lemma exportSessions_parsed:
  "exportSessions pf st = Json (JArr (map (\<lambda>ps. jsonify pf (VObj ps)) (getSessions pf st)))"
  by (simp add: exportSessions_def stringify_array_def jsonify_def comp_def)

lemma parse_int_2000: "parse_int 10 ''2000'' = Some 2000"
  by (simp add: parse_int_def digit_value_def)

lemma length_two_session_store: "length (getSessions decimal_platform two_session_store) = 2"
  by (simp add: getSessions_def getSessions_try_def two_session_store_def empty_browser_def
      example_record_def second_record_def revive_session_def revive_message_def lookup_def
      decimal_platform_def parse_int_examples parse_int_2000)

section \<open>Dates and messages under the operations\<close>

lemma carries_on_refl: "carries_on ps ps"
  by (simp add: carries_on_def)

lemma messages_of_with_name: "messages_of (with_name ps name now) = messages_of ps"
  by (simp add: messages_of_def lookup_with_name)

lemma messages_of_with_settings: "messages_of (with_settings ps settings now) = messages_of ps"
  by (simp add: messages_of_def lookup_with_settings)

lemma carries_on_with:
  "carries_on ps (with_name ps name now)"
  "carries_on ps (with_message ps new now)"
  "carries_on ps (with_settings ps settings now)"
  by (simp_all add: carries_on_def lookup_with_name lookup_with_message lookup_with_settings
      messages_of_with_name messages_of_with_message messages_of_with_settings)

lemma updated_after_created_with:
  assumes "created_before ps now"
  shows "updated_after_created (with_name ps name now)"
    and "updated_after_created (with_message ps new now)"
    and "updated_after_created (with_settings ps settings now)"
  using assms
  by (auto simp: updated_after_created_def created_before_def lookup_with_name
      lookup_with_message lookup_with_settings split: jsval.splits option.splits)

lemma updated_after_created_newSession:
  "date1 r \<le> date2 r \<Longrightarrow> updated_after_created (newSession name settings r)"
  by (simp add: updated_after_created_def newSession_def lookup_def)

lemma replaced_session_ok:
  assumes "\<forall>ps\<in>set xs. updated_after_created ps" and "i < length xs"
    and "updated_after_created s" and "carries_on (xs ! i) s"
  shows "(\<forall>ps'\<in>set (xs[i := s]). updated_after_created ps') \<and>
         (\<forall>ps'\<in>set (xs[i := s]). \<exists>ps\<in>set xs. carries_on ps ps')"
proof (intro conjI ballI)
  fix ps' assume "ps' \<in> set (xs[i := s])"
  then have c: "ps' = s \<or> ps' \<in> set xs"
    using set_update_subset_insert [of xs i s] by auto
  with assms(1,3) show "updated_after_created ps'" by auto
  from c show "\<exists>ps\<in>set xs. carries_on ps ps'"
  proof
    assume "ps' = s"
    with assms(2,4) show ?thesis using nth_mem [of i xs] by blast
  next
    assume "ps' \<in> set xs"
    then show ?thesis using carries_on_refl by blast
  qed
qed

lemma unchanged_sessions_ok:
  assumes "\<forall>ps\<in>set xs. updated_after_created ps"
  shows "(\<forall>ps'\<in>set xs. updated_after_created ps') \<and>
         (\<forall>ps'\<in>set xs. \<exists>ps\<in>set xs. carries_on ps ps')"
  using assms carries_on_refl by blast

lemma updateSessionName_unknown:
  "findIndex (\<lambda>s. lookup s ''id'' = VStr sessionId) (getSessions pf st) = None \<Longrightarrow>
   updateSessionName pf st sessionId name now = (st, False)"
  by (simp add: updateSessionName_def)

lemma updateSessionSettings_unknown:
  "findIndex (\<lambda>s. lookup s ''id'' = VStr sessionId) (getSessions pf st) = None \<Longrightarrow>
   updateSessionSettings pf st sessionId settings now = (st, False)"
  by (simp add: updateSessionSettings_def)

lemma addMessage_no_index:
  "findIndex (\<lambda>s. lookup s ''id'' = VStr sessionId) (getSessions pf st) = None \<Longrightarrow>
   addMessage pf st sessionId message r = Some (st, None)"
  by (simp add: addMessage_def)

lemma import_backdated:
  "importSessions decimal_platform example_store (Json (JArr [backdated_record]))
   = (example_store\<lparr>chat_item := Some (Json (JArr [backdated_record]))\<rparr>, True)"
  by (simp add: importSessions_def backdated_record_def isValidSession_def dot_def lookup_def
      saveSessions_def stringify_array_def example_store_def empty_browser_def)

lemma getSessions_backdated:
  "getSessions decimal_platform (example_store\<lparr>chat_item := Some (Json (JArr [backdated_record]))\<rparr>)
   = [backdated_session]"
  by (simp add: getSessions_def getSessions_try_def example_store_def empty_browser_def
      backdated_record_def revive_session_def revive_message_def lookup_def decimal_platform_def
      parse_int_examples parse_int_2000 backdated_session_def)

section \<open>What is written and what is loaded\<close>

lemma those_length: "those xs = Some ys \<Longrightarrow> length ys = length xs"
  by (induction xs arbitrary: ys) (auto split: option.splits)

lemma those_member:
  "those (map f xs) = Some ys \<Longrightarrow> y \<in> set ys \<Longrightarrow> \<exists>x\<in>set xs. f x = Some y"
  by (induction xs arbitrary: ys) (auto split: option.splits)

lemma getSessions_length_le:
  assumes "chat_item st = Some (Json (JArr loaded))"
  shows "length (getSessions pf st) \<le> length loaded"
proof (cases "getSessions_try pf st")
  case None
  then show ?thesis by (simp add: getSessions_def)
next
  case (Some xs)
  with assms have "those (map (revive_session pf) (map of_json loaded)) = Some xs"
    by (simp add: getSessions_try_def split: if_splits)
  from those_length [OF this] Some show ?thesis by (simp add: getSessions_def)
qed

lemma createSession_stored:
  assumes "storage_ok st"
  shows "\<exists>written. chat_item (fst (createSession pf st name settings r)) = Some (Json (JArr written)) \<and>
           length written \<le> MAX_SESSIONS"
  using assms
  by (simp add: createSession_def Let_def saveSessions_def stringify_array_def storage_ok_def)

lemma createSessions_stored:
  "storage_ok st \<Longrightarrow> calls \<noteq> [] \<Longrightarrow>
   \<exists>written. chat_item (createSessions pf st calls) = Some (Json (JArr written)) \<and>
             length written \<le> MAX_SESSIONS"
proof (induction calls arbitrary: st)
  case Nil
  then show ?case by simp
next
  case (Cons c calls)
  obtain name settings r where c: "c = (name, settings, r)" by (cases c)
  show ?case
  proof (cases "calls = []")
    case True
    with c createSession_stored [OF Cons.prems(1)] show ?thesis by simp
  next
    case False
    have "storage_ok (fst (createSession pf st name settings r))"
      using Cons.prems(1) by (simp add: createSession_storage_ok)
    from Cons.IH [OF this False] c show ?thesis by simp
  qed
qed

lemma revive_session_messages:
  "revive_session pf v = Some ps \<Longrightarrow> \<exists>ms. lookup ps ''messages'' = VArr ms"
  by (auto simp: revive_session_def lookup_set_prop split: Option.bind_splits)

lemma getSessions_have_messages:
  assumes "ps \<in> set (getSessions pf st)"
  shows "lookup ps ''messages'' = VArr (messages_of ps)"
proof -
  from assms obtain xs where xs: "getSessions_try pf st = Some xs" "ps \<in> set xs"
    by (cases "getSessions_try pf st") (auto simp: getSessions_def)
  from xs(2) have "xs \<noteq> []" by auto
  with xs(1) obtain v where "those (map (revive_session pf) v) = Some xs"
    by (auto simp: getSessions_try_def split: if_splits option.splits Option.bind_splits
        elim!: array_map.elims)
  from those_member [OF this xs(2)] obtain x where "revive_session pf x = Some ps" by blast
  from revive_session_messages [OF this] show ?thesis by (auto simp: messages_of_def)
qed

lemma addMessage_found:
  assumes "findIndex (\<lambda>s. lookup s ''id'' = VStr sessionId) (getSessions pf st) = Some i"
  shows "addMessage pf st sessionId message r
         = Some (saveSessions pf st (map VObj ((getSessions pf st)
                   [i := with_message (getSessions pf st ! i) (newMessage message r) (date2 r)])),
                 Some (newMessage message r))"
proof -
  from findIndex_Some [OF assms] have "getSessions pf st ! i \<in> set (getSessions pf st)" by simp
  from getSessions_have_messages [OF this] assms show ?thesis
    by (simp add: addMessage_def with_message_def Let_def)
qed

lemma createSessions_loaded:
  assumes "iso_roundtrip pf" and "storage_ok st"
    and "\<forall>ps\<in>set (getSessions pf st). well_formed_session ps"
    and "\<forall>(name, settings, r)\<in>set calls. plain settings"
    and "calls \<noteq> []"
  shows "getSessions pf (createSessions pf st calls)
           = take MAX_SESSIONS
               (rev (map (\<lambda>(name, settings, r). newSession name settings r) calls)
                @ getSessions pf st)"
  using assms(2-5)
proof (induction calls arbitrary: st)
  case Nil
  then show ?case by simp
next
  case (Cons c calls)
  obtain name settings r where c: "c = (name, settings, r)" by (cases c)
  let ?st = "fst (createSession pf st name settings r)"
  from Cons.prems c have pl: "plain settings" by auto
  have step: "getSessions pf ?st = take MAX_SESSIONS (newSession name settings r # getSessions pf st)"
    by (rule createSession_step [OF assms(1) Cons.prems(1,2) pl])
  show ?case
  proof (cases "calls = []")
    case True
    with c step show ?thesis by simp
  next
    case False
    have ok: "storage_ok ?st" using Cons.prems(1) by (simp add: createSession_storage_ok)
    have wf: "\<forall>ps\<in>set (getSessions pf ?st). well_formed_session ps"
      unfolding step using Cons.prems(2) pl well_formed_newSession [of settings name r]
      by (auto dest!: in_set_takeD)
    have "getSessions pf (createSessions pf ?st calls)
          = take MAX_SESSIONS (rev (map (\<lambda>(name, settings, r). newSession name settings r) calls) @ getSessions pf ?st)"
      using Cons.prems(3) by (intro Cons.IH [OF ok wf _ False]) simp
    also have "\<dots> = take MAX_SESSIONS (rev (map (\<lambda>(name, settings, r). newSession name settings r) calls) @ newSession name settings r # getSessions pf st)"
      unfolding step by (rule take_append_take)
    finally show ?thesis using c by simp
  qed
qed

section \<open>Saving and loading a session built from any arguments\<close>

lemma reparse_VObj_kept: "reparse pf (VObj ps) = VObj (kept pf ps)"
proof -
  have "map (\<lambda>(k, j). (k, of_json j))
          (List.map_filter (\<lambda>(k, jo). map_option (Pair k) jo) (map (\<lambda>(k, v). (k, to_json pf v)) ps))
        = kept pf ps"
    unfolding kept_def
    by (induction ps) (auto split: option.splits)
  then show ?thesis by (simp add: reparse_def jsonify_def)
qed

lemma lookup_kept:
  "distinct (map fst ps) \<Longrightarrow>
   lookup (kept pf ps) k =
     (case map_of ps k of
        None \<Rightarrow> VUndefined
      | Some v \<Rightarrow> (case to_json pf v of None \<Rightarrow> VUndefined | Some j \<Rightarrow> of_json j))"
proof (induction ps)
  case Nil
  then show ?case by (simp add: kept_def lookup_def)
next
  case (Cons p ps)
  obtain k' v' where p: "p = (k', v')" by (cases p)
  from Cons have IH: "lookup (kept pf ps) k =
     (case map_of ps k of
        None \<Rightarrow> VUndefined
      | Some v \<Rightarrow> (case to_json pf v of None \<Rightarrow> VUndefined | Some j \<Rightarrow> of_json j))"
    by simp
  show ?case
  proof (cases "k' = k")
    case True
    with Cons.prems p have "map_of ps k = None"
      by (auto simp: map_of_eq_None_iff)
    with IH have none: "lookup (kept pf ps) k = VUndefined" by simp
    show ?thesis
    proof (cases "to_json pf v'")
      case None
      with p True none show ?thesis
        by (simp add: kept_def)
    next
      case (Some j)
      with p True show ?thesis
        by (simp add: kept_def lookup_def)
    qed
  next
    case False
    have "lookup (kept pf (p # ps)) k = lookup (kept pf ps) k"
      using p False by (cases "to_json pf v'") (simp_all add: kept_def lookup_def)
    with IH p False show ?thesis by simp
  qed
qed

lemma lookup_Some: "lookup ps k = v \<Longrightarrow> v \<noteq> VUndefined \<Longrightarrow> map_of ps k = Some v"
  by (auto simp: lookup_def split: option.splits)

lemma revive_message_object:
  "is_object m \<Longrightarrow> revive_message pf (reparse pf m) = Some (reloaded_message pf m)"
proof -
  assume "is_object m"
  then obtain qs where m: "m = VObj qs" by (cases m) (auto simp: is_object_def)
  have "revive_message pf (reparse pf (VObj qs)) \<noteq> None"
    by (simp add: reparse_VObj_kept revive_message_def)
  with m show ?thesis by (auto simp: reloaded_message_def)
qed

lemma reloaded_message_well_formed:
  "iso_roundtrip pf \<Longrightarrow> well_formed_message m \<Longrightarrow> reloaded_message pf m = m"
  by (simp add: reloaded_message_def reload_message)

lemma reload_loadable:
  assumes rt: "iso_roundtrip pf" and ld: "loadable ps"
  shows "\<exists>ps'. revive_session pf (reparse pf (VObj ps)) = Some ps' \<and>
           lookup ps' ''createdAt'' = lookup ps ''createdAt'' \<and>
           lookup ps' ''updatedAt'' = lookup ps ''updatedAt'' \<and>
           messages_of ps' = map (reloaded_message pf) (messages_of ps) \<and>
           (\<forall>k. k \<notin> {''createdAt'', ''updatedAt'', ''messages''} \<longrightarrow>
                lookup ps' k = lookup (kept pf ps) k)"
proof -
  from ld have d: "distinct (map fst ps)" by (simp add: loadable_def)
  from ld obtain tc where c: "lookup ps ''createdAt'' = VDate (Some tc)"
    by (auto simp: loadable_def dest: is_dateE)
  from ld obtain tu where u: "lookup ps ''updatedAt'' = VDate (Some tu)"
    by (auto simp: loadable_def dest: is_dateE)
  from ld obtain ms where m: "lookup ps ''messages'' = VArr ms" and obj: "\<forall>m\<in>set ms. is_object m"
    by (auto simp: loadable_def split: jsval.splits)
  have kc: "lookup (kept pf ps) ''createdAt'' = VStr (toISOString pf tc)"
    using lookup_Some [OF c] by (simp add: lookup_kept [OF d])
  have ku: "lookup (kept pf ps) ''updatedAt'' = VStr (toISOString pf tu)"
    using lookup_Some [OF u] by (simp add: lookup_kept [OF d])
  have km: "lookup (kept pf ps) ''messages'' = VArr (map (reparse pf) ms)"
    using lookup_Some [OF m] by (simp add: lookup_kept [OF d] reparse_def jsonify_def comp_def)
  have th: "those (map (revive_message pf) (map (reparse pf) ms)) = Some (map (reloaded_message pf) ms)"
    unfolding map_map
    by (rule those_map_Some) (use obj in \<open>simp add: revive_message_object\<close>)
  let ?ps' = "set_prop ''messages'' (VArr (map (reloaded_message pf) ms))
              (set_prop ''updatedAt'' (VDate (Some tu))
                (set_prop ''createdAt'' (VDate (Some tc)) (kept pf ps)))"
  have "revive_session pf (reparse pf (VObj ps)) = Some ?ps'"
    using rt kc ku km th
    by (simp add: reparse_VObj_kept revive_session_def iso_roundtrip_def)
  moreover have "lookup ?ps' ''createdAt'' = lookup ps ''createdAt''"
    "lookup ?ps' ''updatedAt'' = lookup ps ''updatedAt''"
    using c u by (simp_all add: lookup_set_prop)
  moreover have "messages_of ?ps' = map (reloaded_message pf) (messages_of ps)"
    using m by (simp add: messages_of_def lookup_set_prop)
  moreover have "\<forall>k. k \<notin> {''createdAt'', ''updatedAt'', ''messages''} \<longrightarrow>
                lookup ?ps' k = lookup (kept pf ps) k"
    by (simp add: lookup_set_prop)
  ultimately show ?thesis by blast
qed

lemma well_formed_message_object: "well_formed_message m \<Longrightarrow> is_object m"
  by (cases m) (simp_all add: well_formed_message_def is_object_def)

lemma messages_objects:
  "well_formed_session ps \<Longrightarrow> m \<in> set (messages_of ps) \<Longrightarrow> is_object m"
  by (rule well_formed_message_object) (rule well_formed_messages_of)

lemma well_formed_loadable:
  assumes "well_formed_session ps"
  shows "loadable ps"
proof -
  from assms have "distinct (map fst ps)" "is_date (lookup ps ''createdAt'')"
    "is_date (lookup ps ''updatedAt'')"
    by (simp_all add: well_formed_session_def)
  moreover have "case lookup ps ''messages'' of
        VArr ms \<Rightarrow> \<forall>m\<in>set ms. is_object m | _ \<Rightarrow> False"
    using messages_objects [OF assms] by (simp add: messages_of_well_formed [OF assms])
  ultimately show ?thesis unfolding loadable_def by (intro conjI)
qed

lemma reloaded_well_formed:
  "iso_roundtrip pf \<Longrightarrow> well_formed_session ps \<Longrightarrow> reloaded pf ps = ps"
  by (simp add: reloaded_def reload_session)

lemma getSessions_saveSessions_loadable:
  assumes "iso_roundtrip pf" and "storage_ok st" and "\<forall>ps\<in>set xs. loadable ps"
  shows "getSessions pf (saveSessions pf st (map VObj xs)) = map (reloaded pf) xs"
proof -
  have "revive_session pf (reparse pf (VObj ps)) = Some (reloaded pf ps)" if "ps \<in> set xs" for ps
  proof -
    from that assms(3) have "loadable ps" by simp
    from reload_loadable [OF assms(1) this] obtain ps' where
      "revive_session pf (reparse pf (VObj ps)) = Some ps'"
      by (elim exE conjE)
    then show ?thesis by (simp add: reloaded_def)
  qed
  then have "those (map (revive_session pf) (map of_json (map (jsonify pf) (map VObj xs))))
        = Some (map (reloaded pf) xs)"
    unfolding map_map by (intro those_map_Some) (simp add: reparse_def)
  with assms(2) show ?thesis
    by (simp add: getSessions_def getSessions_try_def saveSessions_def stringify_array_def
        storage_ok_def jsonify_def comp_def)
qed

lemma reloaded_lookups:
  assumes "iso_roundtrip pf" and "loadable ps"
  shows "lookup (reloaded pf ps) ''createdAt'' = lookup ps ''createdAt''"
    and "lookup (reloaded pf ps) ''updatedAt'' = lookup ps ''updatedAt''"
    and "messages_of (reloaded pf ps) = map (reloaded_message pf) (messages_of ps)"
    and "k \<notin> {''createdAt'', ''updatedAt'', ''messages''} \<Longrightarrow>
         lookup (reloaded pf ps) k = lookup (kept pf ps) k"
proof -
  from reload_loadable [OF assms] obtain ps' where
    r: "revive_session pf (reparse pf (VObj ps)) = Some ps'" and
    1: "lookup ps' ''createdAt'' = lookup ps ''createdAt''" and
    2: "lookup ps' ''updatedAt'' = lookup ps ''updatedAt''" and
    3: "messages_of ps' = map (reloaded_message pf) (messages_of ps)" and
    4: "\<forall>k. k \<notin> {''createdAt'', ''updatedAt'', ''messages''} \<longrightarrow>
                lookup ps' k = lookup (kept pf ps) k"
    by (elim exE conjE)
  from r have e: "reloaded pf ps = ps'" by (simp add: reloaded_def)
  show "lookup (reloaded pf ps) ''createdAt'' = lookup ps ''createdAt''"
    unfolding e by (rule 1)
  show "lookup (reloaded pf ps) ''updatedAt'' = lookup ps ''updatedAt''"
    unfolding e by (rule 2)
  show "messages_of (reloaded pf ps) = map (reloaded_message pf) (messages_of ps)"
    unfolding e by (rule 3)
  show "lookup (reloaded pf ps) k = lookup (kept pf ps) k"
    if "k \<notin> {''createdAt'', ''updatedAt'', ''messages''}"
    unfolding e using 4 that by blast
qed

lemma map_of_set_prop:
  "map_of (set_prop k v ps) k' = (if k' = k then Some v else map_of ps k')"
  by (induction k v ps rule: set_prop.induct) auto

lemma lookup_kept_plain:
  assumes "distinct (map fst ps)" and "plain (lookup ps k) \<or> lookup ps k = VUndefined"
  shows "lookup (kept pf ps) k = lookup ps k"
proof (cases "map_of ps k")
  case None
  then show ?thesis unfolding lookup_kept [OF assms(1)] by (simp add: lookup_def)
next
  case (Some v)
  then have l: "lookup ps k = v" by (simp add: lookup_def)
  show ?thesis
  proof (cases "v = VUndefined")
    case True
    with Some l show ?thesis unfolding lookup_kept [OF assms(1)] by simp
  next
    case False
    with assms(2) l have p: "plain v" by simp
    from reparse_plain [OF p, of pf] False have "to_json pf v = Some (jsonify pf v)" "of_json (jsonify pf v) = v"
      using to_json_None_iff [of pf v] by (auto simp: reparse_def jsonify_def)
    with Some l show ?thesis unfolding lookup_kept [OF assms(1)] by simp
  qed
qed

lemma loadable_set_prop:
  assumes "loadable ps"
    and "k = ''createdAt'' \<or> k = ''updatedAt'' \<Longrightarrow> is_date v"
    and "k = ''messages'' \<Longrightarrow> \<exists>ms. v = VArr ms \<and> (\<forall>m\<in>set ms. is_object m)"
  shows "loadable (set_prop k v ps)"
proof -
  have "distinct (map fst (set_prop k v ps))"
    using assms(1) by (simp add: loadable_def distinct_set_prop)
  moreover have "is_date (lookup (set_prop k v ps) ''createdAt'')"
    using assms(1,2) by (simp add: loadable_def lookup_set_prop)
  moreover have "is_date (lookup (set_prop k v ps) ''updatedAt'')"
    using assms(1,2) by (simp add: loadable_def lookup_set_prop)
  moreover have "case lookup (set_prop k v ps) ''messages'' of
        VArr ms \<Rightarrow> \<forall>m\<in>set ms. is_object m | _ \<Rightarrow> False"
  proof (cases "k = ''messages''")
    case True
    with assms(3) obtain ms where "v = VArr ms" "\<forall>m\<in>set ms. is_object m" by blast
    with True show ?thesis by (simp add: lookup_set_prop)
  next
    case False
    with assms(1) show ?thesis by (simp add: loadable_def lookup_set_prop)
  qed
  ultimately show ?thesis unfolding loadable_def by (intro conjI)
qed

lemma loadable_newSession: "loadable (newSession name settings r)"
  by (simp add: loadable_def newSession_def lookup_def is_date_def)

lemma loadable_with:
  assumes "well_formed_session ps"
  shows "loadable (with_name ps name now)"
    and "loadable (with_message ps new now)"
    and "loadable (with_settings ps settings now)"
proof -
  note l = well_formed_loadable [OF assms]
  show "loadable (with_name ps name now)"
    unfolding with_name_def
    by (intro loadable_set_prop l) (simp_all add: is_date_def)
  show "loadable (with_settings ps settings now)"
    unfolding with_settings_def
    by (intro loadable_set_prop l) (simp_all add: is_date_def)
  have "\<forall>m\<in>set (messages_of ps @ [VObj new]). is_object m"
    using messages_objects [OF assms] by (auto simp: is_object_def)
  then show "loadable (with_message ps new now)"
    unfolding with_message_def
    by (intro loadable_set_prop l) (simp_all add: is_date_def)
qed

lemma update_session_reload_loadable:
  assumes "iso_roundtrip pf" and "storage_ok st"
    and "\<forall>ps\<in>set (getSessions pf st). well_formed_session ps"
    and "loadable s"
  shows "getSessions pf (saveSessions pf st (map VObj ((getSessions pf st)[i := s])))
         = (getSessions pf st)[i := reloaded pf s]"
proof -
  let ?xs = "getSessions pf st"
  have l: "\<forall>ps\<in>set (?xs[i := s]). loadable ps"
    using assms(3,4) set_update_subset_insert [of ?xs i s] well_formed_loadable by auto
  have id: "map (reloaded pf) ?xs = ?xs"
    by (rule map_idI) (use assms(1,3) in \<open>simp add: reloaded_well_formed\<close>)
  have "getSessions pf (saveSessions pf st (map VObj (?xs[i := s]))) = map (reloaded pf) (?xs[i := s])"
    by (rule getSessions_saveSessions_loadable [OF assms(1,2) l])
  also have "\<dots> = (map (reloaded pf) ?xs)[i := reloaded pf s]"
    by (rule map_update)
  finally show ?thesis unfolding id .
qed

lemma updated_after_created_reloaded:
  assumes "iso_roundtrip pf" and "loadable s"
  shows "updated_after_created (reloaded pf s) = updated_after_created s"
  by (simp add: updated_after_created_def reloaded_lookups(1,2) [OF assms])

lemma carries_on_reloaded:
  assumes rt: "iso_roundtrip pf" and wf: "well_formed_session ps" and ld: "loadable s"
    and id: "lookup s ''id'' = lookup ps ''id''"
    and cr: "lookup s ''createdAt'' = lookup ps ''createdAt''"
    and ms: "take (length (messages_of ps)) (messages_of s) = messages_of ps"
  shows "carries_on ps (reloaded pf s)"
proof -
  from ld have d: "distinct (map fst s)" by (simp add: loadable_def)
  have "plain (lookup s ''id'') \<or> lookup s ''id'' = VUndefined"
    unfolding id by (rule lookup_plain_or_undefined [OF wf]) simp
  then have "lookup (kept pf s) ''id'' = lookup s ''id''"
    by (rule lookup_kept_plain [OF d])
  then have 1: "lookup (reloaded pf s) ''id'' = lookup ps ''id''"
    using reloaded_lookups(4) [OF rt ld, of "''id''"] id by simp
  have 2: "lookup (reloaded pf s) ''createdAt'' = lookup ps ''createdAt''"
    using reloaded_lookups(1) [OF rt ld] cr by simp
  have same: "map (reloaded_message pf) (messages_of ps) = messages_of ps"
    by (rule map_idI) (use rt wf in \<open>simp add: reloaded_message_well_formed well_formed_messages_of\<close>)
  have "take (length (messages_of ps)) (messages_of (reloaded pf s))
        = map (reloaded_message pf) (take (length (messages_of ps)) (messages_of s))"
    by (simp add: reloaded_lookups(3) [OF rt ld] take_map)
  also have "\<dots> = messages_of ps" unfolding ms by (rule same)
  finally show ?thesis using 1 2 by (simp add: carries_on_def)
qed

lemma carries_on_reloaded_with:
  assumes "iso_roundtrip pf" and "well_formed_session ps"
  shows "carries_on ps (reloaded pf (with_name ps name now))"
    and "carries_on ps (reloaded pf (with_message ps new now))"
    and "carries_on ps (reloaded pf (with_settings ps settings now))"
proof -
  show "carries_on ps (reloaded pf (with_name ps name now))"
    by (rule carries_on_reloaded [OF assms loadable_with(1) [OF assms(2)]])
      (simp_all add: lookup_with_name messages_of_with_name)
  show "carries_on ps (reloaded pf (with_message ps new now))"
    by (rule carries_on_reloaded [OF assms loadable_with(2) [OF assms(2)]])
      (simp_all add: lookup_with_message messages_of_with_message)
  show "carries_on ps (reloaded pf (with_settings ps settings now))"
    by (rule carries_on_reloaded [OF assms loadable_with(3) [OF assms(2)]])
      (simp_all add: lookup_with_settings messages_of_with_settings)
qed

lemma updated_after_created_reloaded_with:
  assumes "iso_roundtrip pf" and "well_formed_session ps" and "created_before ps now"
  shows "updated_after_created (reloaded pf (with_name ps name now))"
    and "updated_after_created (reloaded pf (with_message ps new now))"
    and "updated_after_created (reloaded pf (with_settings ps settings now))"
  using updated_after_created_with [OF assms(3)]
  by (simp_all add: updated_after_created_reloaded [OF assms(1)] loadable_with [OF assms(2)])

lemma replaced_session_carries_on:
  assumes "\<forall>ps\<in>set xs. updated_after_created ps" and "i < length xs"
    and "updated_after_created s" and "carries_on (xs ! i) s"
  shows "(\<forall>ps'\<in>set (xs[i := s]). updated_after_created ps') \<and>
         length (xs[i := s]) = length xs \<and>
         (\<forall>j<length xs. carries_on (xs ! j) (xs[i := s] ! j))"
proof (intro conjI ballI allI impI)
  fix ps' assume "ps' \<in> set (xs[i := s])"
  then have "ps' = s \<or> ps' \<in> set xs"
    using set_update_subset_insert [of xs i s] by auto
  with assms(1,3) show "updated_after_created ps'" by auto
next
  show "length (xs[i := s]) = length xs" by simp
next
  fix j assume "j < length xs"
  with assms(2,4) show "carries_on (xs ! j) (xs[i := s] ! j)"
    by (cases "j = i") (simp_all add: carries_on_refl)
qed

lemma unchanged_sessions_carry_on:
  assumes "\<forall>ps\<in>set xs. updated_after_created ps"
  shows "(\<forall>ps'\<in>set xs. updated_after_created ps') \<and> length xs = length xs \<and>
         (\<forall>j<length xs. carries_on (xs ! j) (xs ! j))"
  using assms by (simp add: carries_on_refl)

lemma updateSessionName_found:
  assumes "findIndex (\<lambda>s. lookup s ''id'' = VStr sessionId) (getSessions pf st) = Some i"
  shows "updateSessionName pf st sessionId name now
         = (saveSessions pf st (map VObj ((getSessions pf st)
              [i := with_name (getSessions pf st ! i) name now])), True)"
  using assms by (simp add: updateSessionName_def with_name_def Let_def)

lemma updateSessionSettings_found:
  assumes "findIndex (\<lambda>s. lookup s ''id'' = VStr sessionId) (getSessions pf st) = Some i"
  shows "updateSessionSettings pf st sessionId settings now
         = (saveSessions pf st (map VObj ((getSessions pf st)
              [i := with_settings (getSessions pf st ! i) settings now])), True)"
  using assms by (simp add: updateSessionSettings_def with_settings_def Let_def)

lemma createSession_loaded:
  assumes "iso_roundtrip pf" and "storage_ok st"
    and "\<forall>ps\<in>set (getSessions pf st). well_formed_session ps"
  shows "getSessions pf (fst (createSession pf st name settings r))
         = take MAX_SESSIONS (reloaded pf (newSession name settings r) # getSessions pf st)"
proof -
  let ?all = "newSession name settings r # getSessions pf st"
  have l: "\<forall>ps\<in>set (take MAX_SESSIONS ?all). loadable ps"
    using assms(3) loadable_newSession [of name settings r] well_formed_loadable
    by (auto dest!: in_set_takeD)
  have id: "map (reloaded pf) (getSessions pf st) = getSessions pf st"
    by (rule map_idI) (use assms(1,3) in \<open>simp add: reloaded_well_formed\<close>)
  have "fst (createSession pf st name settings r)
        = saveSessions pf st (map VObj (take MAX_SESSIONS ?all))"
    by (simp add: createSession_def Let_def)
  then have "getSessions pf (fst (createSession pf st name settings r))
             = map (reloaded pf) (take MAX_SESSIONS ?all)"
    using getSessions_saveSessions_loadable [OF assms(1,2) l] by simp
  also have "\<dots> = take MAX_SESSIONS (map (reloaded pf) ?all)"
    by (rule take_map [symmetric])
  finally show ?thesis by (simp add: id)
qed

lemma reloaded_newSession:
  assumes "iso_roundtrip pf"
  shows "lookup (reloaded pf (newSession name settings r)) ''id''
           = VStr (generateId (date_now r) (random36 r))"
    and "messages_of (reloaded pf (newSession name settings r)) = []"
    and "date1 r \<le> date2 r \<Longrightarrow> updated_after_created (reloaded pf (newSession name settings r))"
proof -
  note l = loadable_newSession [of name settings r]
  have d: "distinct (map fst (newSession name settings r))"
    using l by (simp add: loadable_def)
  have i: "lookup (newSession name settings r) ''id'' = VStr (generateId (date_now r) (random36 r))"
    by (simp add: newSession_def lookup_def)
  have "lookup (kept pf (newSession name settings r)) ''id''
        = lookup (newSession name settings r) ''id''"
    by (rule lookup_kept_plain [OF d]) (simp add: i)
  then show "lookup (reloaded pf (newSession name settings r)) ''id''
           = VStr (generateId (date_now r) (random36 r))"
    using reloaded_lookups(4) [OF assms l, of "''id''"] i by simp
  have "messages_of (newSession name settings r) = []"
    by (simp add: messages_of_def newSession_def lookup_def)
  then show "messages_of (reloaded pf (newSession name settings r)) = []"
    by (simp add: reloaded_lookups(3) [OF assms l])
  show "updated_after_created (reloaded pf (newSession name settings r))" if "date1 r \<le> date2 r"
    using updated_after_created_newSession [OF that]
    by (simp add: updated_after_created_reloaded [OF assms l])
qed

lemma length_digits:
  "2 \<le> b \<Longrightarrow> b ^ k \<le> n \<Longrightarrow> n < b ^ Suc k \<Longrightarrow> length (digits b n) = Suc k"
proof (induction k arbitrary: n)
  case 0
  then show ?case by (subst digits.simps) simp
next
  case (Suc k)
  from Suc.prems have b: "0 < b" by simp
  from Suc.prems(1,2) have "b \<le> n"
    using self_le_power [of b "Suc k"] by (simp add: order_trans [of b "b * b ^ k" n])
  then have nb: "\<not> (n < b \<or> b < 2)" using Suc.prems(1) by simp
  have lo: "b ^ k \<le> n div b"
    using Suc.prems(2) b by (simp add: less_eq_div_iff_mult_less_eq mult.commute)
  have hi: "n div b < b ^ Suc k"
    using Suc.prems(3) b by (simp add: div_less_iff_less_mult mult.commute)
  have "length (digits b n) = Suc (length (digits b (n div b)))"
    using nb by (subst digits.simps) simp
  with Suc.IH [OF Suc.prems(1) lo hi] show ?case by simp
qed

lemma length_toString_36:
  assumes "78364164096 \<le> t" and "t < 2821109907456"
  shows "length (toString 36 t) = 8"
proof -
  have "(36::nat) ^ 7 \<le> nat t" "nat t < (36::nat) ^ Suc 7"
    using assms by simp_all
  then have "length (digits 36 (nat t)) = Suc 7"
    by (intro length_digits) simp_all
  with assms show ?thesis by (simp add: toString_def)
qed

lemma generateId_eq_iff:
  assumes "length (toString 36 t) = length (toString 36 t')"
  shows "generateId t rnd = generateId t' rnd' \<longleftrightarrow> t = t' \<and> rnd = rnd'"
proof
  assume "generateId t rnd = generateId t' rnd'"
  with assms have "toString 36 t = toString 36 t'" and r: "rnd = rnd'"
    by (simp_all add: generateId_def)
  then have "t = t'" by (intro toString_inj [of 36]) simp_all
  with r show "t = t' \<and> rnd = rnd'" by simp
qed simp

lemma generateId_example: "generateId 100 ''abc'' = ''2sabc''"
  by (simp add: generateId_def toString_def digits.simps digit_char_def)

lemma messages_reloaded_with_message:
  assumes "iso_roundtrip pf" and "well_formed_session ps"
  shows "messages_of (reloaded pf (with_message ps new now))
         = messages_of ps @ [reloaded_message pf (VObj new)]"
    and "lookup (reloaded pf (with_message ps new now)) ''updatedAt'' = VDate (Some now)"
proof -
  note l = loadable_with(2) [OF assms(2), of new now]
  have same: "map (reloaded_message pf) (messages_of ps) = messages_of ps"
    by (rule map_idI)
      (use assms in \<open>simp add: reloaded_message_well_formed well_formed_messages_of\<close>)
  show "messages_of (reloaded pf (with_message ps new now))
         = messages_of ps @ [reloaded_message pf (VObj new)]"
    by (simp add: reloaded_lookups(3) [OF assms(1) l] messages_of_with_message same)
  show "lookup (reloaded pf (with_message ps new now)) ''updatedAt'' = VDate (Some now)"
    by (simp add: reloaded_lookups(2) [OF assms(1) l] lookup_with_message)
qed

lemma addMessage_loaded:
  assumes rt: "iso_roundtrip pf" and ok: "storage_ok st"
    and wf: "\<forall>ps\<in>set (getSessions pf st). well_formed_session ps"
    and i: "findIndex (\<lambda>s. lookup s ''id'' = VStr sessionId) (getSessions pf st) = Some i"
  shows "\<exists>st'. addMessage pf st sessionId message r = Some (st', Some (newMessage message r)) \<and>
           getSessions pf st'
             = (getSessions pf st)[i := reloaded pf
                 (with_message (getSessions pf st ! i) (newMessage message r) (date2 r))] \<and>
           messages_of (getSessions pf st' ! i)
             = messages_of (getSessions pf st ! i)
               @ [reloaded_message pf (VObj (newMessage message r))] \<and>
           lookup (getSessions pf st' ! i) ''updatedAt'' = VDate (Some (date2 r))"
proof -
  let ?xs = "getSessions pf st"
  let ?s = "with_message (?xs ! i) (newMessage message r) (date2 r)"
  let ?st = "saveSessions pf st (map VObj (?xs[i := ?s]))"
  from findIndex_Some [OF i] have il: "i < length ?xs" by simp
  with wf have wfi: "well_formed_session (?xs ! i)" by simp
  have a: "addMessage pf st sessionId message r = Some (?st, Some (newMessage message r))"
    by (rule addMessage_found [OF i])
  have g: "getSessions pf ?st = ?xs[i := reloaded pf ?s]"
    by (rule update_session_reload_loadable [OF rt ok wf loadable_with(2) [OF wfi]])
  have "messages_of (getSessions pf ?st ! i)
        = messages_of (?xs ! i) @ [reloaded_message pf (VObj (newMessage message r))]"
    unfolding g using il by (simp add: messages_reloaded_with_message(1) [OF rt wfi])
  moreover have "lookup (getSessions pf ?st ! i) ''updatedAt'' = VDate (Some (date2 r))"
    unfolding g using il by (simp add: messages_reloaded_with_message(2) [OF rt wfi])
  ultimately show ?thesis using a g by (intro exI [of _ ?st] conjI)
qed

lemma run_AddMessage_layout:
  assumes rt: "iso_roundtrip pf" and ok: "storage_ok st"
    and wf: "\<forall>ps\<in>set (getSessions pf st). well_formed_session ps"
    and msg: "plain (VObj message)" "distinct (map fst message)"
    and i: "findIndex (\<lambda>s. lookup s ''id'' = VStr sessionId) (getSessions pf st) = Some i"
  shows "getSessions pf (run pf st (AddMessage sessionId message r))
         = (getSessions pf st)
           [i := with_message (getSessions pf st ! i) (newMessage message r) (date2 r)]"
    and "storage_ok (run pf st (AddMessage sessionId message r))"
proof -
  from findIndex_Some [OF i] have il: "i < length (getSessions pf st)" by simp
  with wf have wfi: "well_formed_session (getSessions pf st ! i)" by simp
  have r: "run pf st (AddMessage sessionId message r)
           = saveSessions pf st (map VObj ((getSessions pf st)
               [i := with_message (getSessions pf st ! i) (newMessage message r) (date2 r)]))"
    by (simp add: addMessage_found [OF i])
  show "getSessions pf (run pf st (AddMessage sessionId message r))
         = (getSessions pf st)
           [i := with_message (getSessions pf st ! i) (newMessage message r) (date2 r)]"
    unfolding r
    by (rule update_session_reload [OF rt ok wf
          well_formed_with_message [OF wfi well_formed_newMessage [OF msg]]])
  show "storage_ok (run pf st (AddMessage sessionId message r))"
    unfolding r using ok by simp
qed

lemma distinct_kept: "distinct (map fst ps) \<Longrightarrow> distinct (map fst (kept pf ps))"
  unfolding kept_def List.map_filter_def
  by (induction ps) (force split: option.splits)+

lemma plain_kept: "(k, v) \<in> set (kept pf ps) \<Longrightarrow> plain v"
  unfolding kept_def List.map_filter_def
  by (auto simp: plain_of_json split: option.splits)

lemma reloaded_form:
  assumes rt: "iso_roundtrip pf" and ld: "loadable ps"
  shows "reloaded pf ps
         = set_prop ''messages'' (VArr (map (reloaded_message pf) (messages_of ps)))
             (set_prop ''updatedAt'' (lookup ps ''updatedAt'')
               (set_prop ''createdAt'' (lookup ps ''createdAt'') (kept pf ps)))"
proof -
  from ld have d: "distinct (map fst ps)" by (simp add: loadable_def)
  from ld obtain tc where c: "lookup ps ''createdAt'' = VDate (Some tc)"
    by (auto simp: loadable_def dest: is_dateE)
  from ld obtain tu where u: "lookup ps ''updatedAt'' = VDate (Some tu)"
    by (auto simp: loadable_def dest: is_dateE)
  from ld obtain ms where m: "lookup ps ''messages'' = VArr ms" and obj: "\<forall>m\<in>set ms. is_object m"
    by (auto simp: loadable_def split: jsval.splits)
  have kc: "lookup (kept pf ps) ''createdAt'' = VStr (toISOString pf tc)"
    using lookup_Some [OF c] by (simp add: lookup_kept [OF d])
  have ku: "lookup (kept pf ps) ''updatedAt'' = VStr (toISOString pf tu)"
    using lookup_Some [OF u] by (simp add: lookup_kept [OF d])
  have km: "lookup (kept pf ps) ''messages'' = VArr (map (reparse pf) ms)"
    using lookup_Some [OF m] by (simp add: lookup_kept [OF d] reparse_def jsonify_def comp_def)
  have th: "those (map (revive_message pf) (map (reparse pf) ms)) = Some (map (reloaded_message pf) ms)"
    unfolding map_map
    by (rule those_map_Some) (use obj in \<open>simp add: revive_message_object\<close>)
  have mo: "messages_of ps = ms" using m by (simp add: messages_of_def)
  have "revive_session pf (reparse pf (VObj ps))
        = Some (set_prop ''messages'' (VArr (map (reloaded_message pf) ms))
              (set_prop ''updatedAt'' (VDate (Some tu))
                (set_prop ''createdAt'' (VDate (Some tc)) (kept pf ps))))"
    using rt kc ku km th
    by (simp add: reparse_VObj_kept revive_session_def iso_roundtrip_def)
  then show ?thesis unfolding reloaded_def c u mo by simp
qed

lemma well_formed_reloaded:
  assumes rt: "iso_roundtrip pf" and ld: "loadable ps" and e: "messages_of ps = []"
  shows "well_formed_session (reloaded pf ps)"
proof -
  let ?a = "set_prop ''createdAt'' (lookup ps ''createdAt'') (kept pf ps)"
  let ?b = "set_prop ''updatedAt'' (lookup ps ''updatedAt'') ?a"
  let ?c = "set_prop ''messages'' (VArr []) ?b"
  have f: "reloaded pf ps = ?c"
    using reloaded_form [OF rt ld] e by simp
  from ld have d: "distinct (map fst ps)"
    and dc: "is_date (lookup ps ''createdAt'')" and du: "is_date (lookup ps ''updatedAt'')"
    by (simp_all add: loadable_def)
  have 1: "distinct (map fst ?c)"
    by (intro distinct_set_prop distinct_kept d)
  have 2: "is_date (lookup ?c ''createdAt'')" "is_date (lookup ?c ''updatedAt'')"
    using dc du by (simp_all add: lookup_set_prop)
  have 3: "lookup ?c ''messages'' = VArr []"
    by (simp add: lookup_set_prop)
  have 4: "plain v" if "(k, v) \<in> set ?c" "k \<notin> {''createdAt'', ''updatedAt'', ''messages''}" for k v
  proof -
    from that have "(k, v) \<in> set ?b" by (auto dest: in_set_prop)
    with that have "(k, v) \<in> set ?a" by (auto dest: in_set_prop)
    with that have "(k, v) \<in> set (kept pf ps)" by (auto dest: in_set_prop)
    then show ?thesis by (rule plain_kept)
  qed
  show ?thesis
    unfolding f well_formed_session_def using 1 2 3 4 by auto
qed

lemma well_formed_reloaded_newSession:
  "iso_roundtrip pf \<Longrightarrow> well_formed_session (reloaded pf (newSession name settings r))"
  by (rule well_formed_reloaded [OF _ loadable_newSession])
     (simp_all add: newSession_def messages_of_def lookup_def)

lemma createSessions_loaded_any:
  assumes "iso_roundtrip pf" and "storage_ok st"
    and "\<forall>ps\<in>set (getSessions pf st). well_formed_session ps"
    and "calls \<noteq> []"
  shows "getSessions pf (createSessions pf st calls)
           = take MAX_SESSIONS
               (rev (map (\<lambda>(name, settings, r). reloaded pf (newSession name settings r)) calls)
                @ getSessions pf st)"
  using assms(2-4)
proof (induction calls arbitrary: st)
  case Nil
  then show ?case by simp
next
  case (Cons c calls)
  obtain name settings r where c: "c = (name, settings, r)" by (cases c)
  let ?st = "fst (createSession pf st name settings r)"
  let ?f = "\<lambda>(name, settings, r). reloaded pf (newSession name settings r)"
  have step: "getSessions pf ?st
              = take MAX_SESSIONS (reloaded pf (newSession name settings r) # getSessions pf st)"
    by (rule createSession_loaded [OF assms(1) Cons.prems(1,2)])
  show ?case
  proof (cases "calls = []")
    case True
    with c step show ?thesis by simp
  next
    case False
    have ok: "storage_ok ?st" using Cons.prems(1) by (simp add: createSession_storage_ok)
    have wf: "\<forall>ps\<in>set (getSessions pf ?st). well_formed_session ps"
      unfolding step
      using Cons.prems(2) well_formed_reloaded_newSession [OF assms(1), of name settings r]
      by (auto dest!: in_set_takeD)
    have "getSessions pf (createSessions pf ?st calls)
          = take MAX_SESSIONS (rev (map ?f calls) @ getSessions pf ?st)"
      by (rule Cons.IH [OF ok wf False])
    also have "\<dots> = take MAX_SESSIONS (rev (map ?f calls)
                 @ reloaded pf (newSession name settings r) # getSessions pf st)"
      unfolding step by (rule take_append_take)
    finally show ?thesis using c by simp
  qed
qed

lemma reloaded_newSession_fields:
  assumes "iso_roundtrip pf"
  shows "lookup (reloaded pf (newSession name settings r)) ''name'' = VStr name"
    and "lookup (reloaded pf (newSession name settings r)) ''createdAt'' = VDate (Some (date1 r))"
    and "lookup (reloaded pf (newSession name settings r)) ''updatedAt'' = VDate (Some (date2 r))"
proof -
  note l = loadable_newSession [of name settings r]
  have d: "distinct (map fst (newSession name settings r))"
    using l by (simp add: loadable_def)
  have n: "lookup (newSession name settings r) ''name'' = VStr name"
    by (simp add: newSession_def lookup_def)
  have "lookup (kept pf (newSession name settings r)) ''name''
        = lookup (newSession name settings r) ''name''"
    by (rule lookup_kept_plain [OF d]) (simp add: n)
  then show "lookup (reloaded pf (newSession name settings r)) ''name'' = VStr name"
    using reloaded_lookups(4) [OF assms l, of "''name''"] n by simp
  show "lookup (reloaded pf (newSession name settings r)) ''createdAt'' = VDate (Some (date1 r))"
    unfolding reloaded_lookups(1) [OF assms l] by (simp add: newSession_def lookup_def)
  show "lookup (reloaded pf (newSession name settings r)) ''updatedAt'' = VDate (Some (date2 r))"
    unfolding reloaded_lookups(2) [OF assms l] by (simp add: newSession_def lookup_def)
qed

lemma length_many_calls: "length many_calls = 51"
  by (simp add: many_calls_def)

lemma newest_of_many_calls:
  "map (\<lambda>s. lookup s ''createdAt'')
     (rev (map (\<lambda>(name, settings, r). newSession name settings r) (drop 1 many_calls)))
   = map (\<lambda>n. VDate (Some (int n))) (rev [1..<51])"
proof -
  have "drop 1 many_calls = map numbered_call [1..<51]"
    by (simp add: many_calls_def drop_map)
  then show ?thesis
    by (simp add: rev_map numbered_call_def newSession_def lookup_def comp_def)
qed

lemma collision_of_unequal_lengths:
  "generateId 63072000000 ''0abc'' = generateId 2270592000000 ''abc''"
  by (simp add: generateId_def toString_def digits.simps digit_char_def)

lemma reloaded_message_form:
  "reloaded_message pf (VObj qs)
   = VObj (set_prop ''timestamp'' (VDate (new_Date pf (lookup (kept pf qs) ''timestamp'')))
            (kept pf qs))"
  by (simp add: reloaded_message_def reparse_VObj_kept revive_message_def)

lemma distinct_newMessage:
  "distinct (map fst message) \<Longrightarrow> distinct (map fst (newMessage message r))"
  unfolding newMessage_def by (intro distinct_set_prop)

lemma reloaded_newMessage:
  assumes rt: "iso_roundtrip pf" and d: "distinct (map fst message)"
  shows "dot (reloaded_message pf (VObj (newMessage message r))) ''id''
           = VStr (generateId (date_now r) (random36 r))"
    and "dot (reloaded_message pf (VObj (newMessage message r))) ''timestamp''
           = VDate (Some (date1 r))"
    and "k \<noteq> ''id'' \<Longrightarrow> k \<noteq> ''timestamp'' \<Longrightarrow> plain (lookup message k) \<Longrightarrow>
         dot (reloaded_message pf (VObj (newMessage message r))) k = lookup message k"
proof -
  let ?qs = "newMessage message r"
  note dq = distinct_newMessage [OF d, of r]
  have ts: "lookup (kept pf ?qs) ''timestamp'' = VStr (toISOString pf (date1 r))"
    using lookup_Some [of ?qs "''timestamp''" "VDate (Some (date1 r))"]
    by (simp add: lookup_kept [OF dq] lookup_newMessage)
  have nd: "new_Date pf (VStr (toISOString pf (date1 r))) = Some (date1 r)"
    using rt by (simp add: iso_roundtrip_def)
  have f: "reloaded_message pf (VObj ?qs)
           = VObj (set_prop ''timestamp'' (VDate (Some (date1 r))) (kept pf ?qs))"
    unfolding reloaded_message_form ts nd ..
  have "lookup (kept pf ?qs) ''id'' = lookup ?qs ''id''"
    by (rule lookup_kept_plain [OF dq]) (simp add: lookup_newMessage)
  then show "dot (reloaded_message pf (VObj ?qs)) ''id''
           = VStr (generateId (date_now r) (random36 r))"
    unfolding f by (simp add: dot_def lookup_set_prop lookup_newMessage)
  show "dot (reloaded_message pf (VObj ?qs)) ''timestamp'' = VDate (Some (date1 r))"
    unfolding f by (simp add: dot_def lookup_set_prop)
  assume k: "k \<noteq> ''id''" "k \<noteq> ''timestamp''" and p: "plain (lookup message k)"
  have "lookup (kept pf ?qs) k = lookup ?qs k"
    by (rule lookup_kept_plain [OF dq]) (use k p in \<open>simp add: lookup_newMessage\<close>)
  then show "dot (reloaded_message pf (VObj ?qs)) k = lookup message k"
    unfolding f using k by (simp add: dot_def lookup_set_prop lookup_newMessage)
qed


section \<open>The API client and the license key\<close>

lemma request_clears_key:
  assumes "\<not> denied st" and "status = 401 \<or> status = 403"
  shows "license_item (fst (request st (Response status body))) = None"
    and "license_item (fst (uploadDocument st (Response status body))) = None"
    and "chat_item (fst (request st (Response status body))) = chat_item st"
    and "chat_item (fst (uploadDocument st (Response status body))) = chat_item st"
    and "\<exists>e. snd (request st (Response status body)) = Inl e"
  using assms by (auto simp: request_def uploadDocument_def ok_def clearKey_def)

text \<open>
  C1. Every request that receives HTTP 401 or 403, the upload included, clears the
  stored license key before the error reaches the caller and changes no session data.
  The first definition of the client does so (\<open>request_clears_key\<close>). The third one,
  evaluated here, does not: \<^verbatim>\<open>request\<close> and \<^verbatim>\<open>uploadDocument\<close> return the browser
  state they were given, so a stored key is still there after a 401.
\<close>

theorem request_cors_keeps_key:
  "fst (request_cors st (Response 401 body)) = st \<and>
   fst (request_cors st (Response 403 body)) = st \<and>
   fst (uploadDocument_cors st (Response 401 body)) = st \<and>
   license_item
     (fst (request_cors (empty_browser\<lparr>license_item := Some ''KEY''\<rparr>) (Response 401 None)))
     = Some ''KEY''"
  by (simp add: request_cors_def uploadDocument_cors_def ok_def)

section \<open>Import\<close>

text \<open>
  C3. \<^verbatim>\<open>importSessions\<close> resolves to false and leaves the store as it was when the
  text is not JSON, when it is not an array, and when a record fails
  \<^verbatim>\<open>isValidSession\<close>, as a record without \<^verbatim>\<open>settings.model\<close> does; when every
  record passes and the store can be written, the stored item becomes the imported
  text, whatever it held before.
\<close>

theorem importSessions_rejects_or_replaces:
  "importSessions pf st (Raw s) = (st, False) \<and>
   (\<not> isArray (of_json j) \<longrightarrow> importSessions pf st (Json j) = (st, False)) \<and>
   (r \<in> set records \<and> \<not> isValidSession (of_json r)
      \<longrightarrow> importSessions pf st (Json (JArr records)) = (st, False)) \<and>
   (r \<in> set records \<and> typeof (dot (dot (of_json r) ''settings'') ''model'') \<noteq> ''string''
      \<longrightarrow> importSessions pf st (Json (JArr records)) = (st, False)) \<and>
   ((\<forall>x\<in>set valid. isValidSession (of_json x)) \<and> storage_ok st
      \<longrightarrow> importSessions pf st (Json (JArr valid))
            = (st\<lparr>chat_item := Some (Json (JArr valid))\<rparr>, True))"
proof -
  have a: "importSessions pf st (Raw s) = (st, False)"
    by (simp add: importSessions_def)
  have b: "importSessions pf st (Json j) = (st, False)" if "\<not> isArray (of_json j)"
    using that by (cases "of_json j") (simp_all add: importSessions_def)
  have c: "importSessions pf st (Json (JArr records)) = (st, False)"
    if "r \<in> set records" "\<not> isValidSession (of_json r)"
    using that by (auto simp: importSessions_def list_all_iff)
  have d: "importSessions pf st (Json (JArr records)) = (st, False)"
    if "r \<in> set records" "typeof (dot (dot (of_json r) ''settings'') ''model'') \<noteq> ''string''"
    using that c by (auto simp: isValidSession_def)
  have e: "importSessions pf st (Json (JArr valid))
           = (st\<lparr>chat_item := Some (Json (JArr valid))\<rparr>, True)"
    if "\<forall>x\<in>set valid. isValidSession (of_json x)" "storage_ok st"
  proof -
    have "map (\<lambda>x. case to_json pf x of None \<Rightarrow> JNull | Some j \<Rightarrow> j) (map of_json valid) = valid"
      by (simp add: to_json_of_json comp_def)
    with that show ?thesis
      by (simp add: importSessions_def list_all_iff saveSessions_def stringify_array_def
          storage_ok_def)
  qed
  show ?thesis using a b c d e by blast
qed

theorem importSessions_rejects_or_replaces_witness:
  "importSessions decimal_platform example_store (Json (JNum 1)) = (example_store, False) \<and>
   importSessions decimal_platform example_store (Json (JArr [example_record, record_without_model]))
     = (example_store, False) \<and>
   importSessions decimal_platform example_store (Json (JArr [record_without_model]))
     = (example_store, False) \<and>
   importSessions decimal_platform example_store (Json (JArr [example_record, example_record]))
     = (example_store\<lparr>chat_item := Some (Json (JArr [example_record, example_record]))\<rparr>, True)"
proof -
  have v: "isValidSession (of_json example_record)"
    by (simp add: isValidSession_def example_record_def dot_def lookup_def)
  have m: "typeof (dot (dot (of_json record_without_model) ''settings'') ''model'') \<noteq> ''string''"
    by (simp add: record_without_model_def dot_def lookup_def)
  have n: "\<not> isValidSession (of_json record_without_model)"
    using m by (simp add: isValidSession_def)
  have ok: "storage_ok example_store"
    by (simp add: storage_ok_def example_store_def empty_browser_def)
  note T = importSessions_rejects_or_replaces [where pf = decimal_platform and st = example_store]
  have "importSessions decimal_platform example_store (Json (JNum 1)) = (example_store, False)"
    using T [where j = "JNum 1"] by simp
  moreover have "importSessions decimal_platform example_store
      (Json (JArr [example_record, record_without_model])) = (example_store, False)"
    using T [where r = record_without_model and records = "[example_record, record_without_model]"] m
    by simp
  moreover have "importSessions decimal_platform example_store
      (Json (JArr [record_without_model])) = (example_store, False)"
    using T [where r = record_without_model and records = "[record_without_model]"] n
    by simp
  moreover have "importSessions decimal_platform example_store
      (Json (JArr [example_record, example_record]))
     = (example_store\<lparr>chat_item := Some (Json (JArr [example_record, example_record]))\<rparr>, True)"
    using T [where valid = "[example_record, example_record]"] v ok by simp
  ultimately show ?thesis by simp
qed

text \<open>
  C10. The check of an imported record looks at shapes only: this array, whose record
  has temperature 7 and the messages \<^verbatim>\<open>null\<close> and 5, is accepted and stored.
\<close>

theorem import_is_shape_only:
  "importSessions pf empty_browser (Json shape_only_payload) =
     (empty_browser\<lparr>chat_item := Some (Json shape_only_payload)\<rparr>, True)"
  by (simp add: importSessions_def shape_only_payload_def isValidSession_def dot_def lookup_def
      saveSessions_def stringify_array_def empty_browser_def)

section \<open>Session creation\<close>

text \<open>
  C2. After any nonempty sequence of \<^verbatim>\<open>createSession\<close> calls on a store that can be
  written, the stored array has at most 50 records and at most 50 sessions are loaded
  from it. When the store held sessions in the persisted layout, the sessions loaded
  are the first 50 of: the created sessions as they are read back, newest first,
  followed by those the store held before; once 50 or more have been created they are
  exactly the 50 created last, newest first. A created session is read back with the
  generated id, the name and the two dates of its call and no messages, and it is read
  back as it was created when its settings hold no \<^verbatim>\<open>undefined\<close> and no \<^verbatim>\<open>Date\<close>.
\<close>

theorem createSessions_keeps_newest:
  "(storage_ok st \<and> calls \<noteq> [] \<longrightarrow>
      (\<exists>written. chat_item (createSessions pf st calls) = Some (Json (JArr written)) \<and>
                 length written \<le> 50) \<and>
      length (getSessions pf (createSessions pf st calls)) \<le> 50) \<and>
   (iso_roundtrip pf \<and> storage_ok st \<and>
    (\<forall>ps\<in>set (getSessions pf st). well_formed_session ps) \<and> calls \<noteq> [] \<longrightarrow>
      getSessions pf (createSessions pf st calls)
        = take 50
            (rev (map (\<lambda>(name, settings, r). reloaded pf (newSession name settings r)) calls)
             @ getSessions pf st) \<and>
      (50 \<le> length calls \<longrightarrow>
         length (getSessions pf (createSessions pf st calls)) = 50 \<and>
         getSessions pf (createSessions pf st calls)
           = rev (map (\<lambda>(name, settings, r). reloaded pf (newSession name settings r))
                   (drop (length calls - 50) calls))) \<and>
      (\<forall>(name, settings, r)\<in>set calls.
         lookup (reloaded pf (newSession name settings r)) ''id''
           = VStr (generateId (date_now r) (random36 r)) \<and>
         lookup (reloaded pf (newSession name settings r)) ''name'' = VStr name \<and>
         lookup (reloaded pf (newSession name settings r)) ''createdAt''
           = VDate (Some (date1 r)) \<and>
         lookup (reloaded pf (newSession name settings r)) ''updatedAt''
           = VDate (Some (date2 r)) \<and>
         messages_of (reloaded pf (newSession name settings r)) = [] \<and>
         (plain settings \<longrightarrow>
            reloaded pf (newSession name settings r) = newSession name settings r))) \<and>
   (iso_roundtrip pf \<and> storage_ok st \<and>
    (\<forall>ps\<in>set (getSessions pf st). well_formed_session ps) \<and>
    (\<forall>(name, settings, r)\<in>set calls. plain settings) \<and> calls \<noteq> [] \<longrightarrow>
      getSessions pf (createSessions pf st calls)
        = take 50
            (rev (map (\<lambda>(name, settings, r). newSession name settings r) calls)
             @ getSessions pf st) \<and>
      (50 \<le> length calls \<longrightarrow>
         length (getSessions pf (createSessions pf st calls)) = 50 \<and>
         getSessions pf (createSessions pf st calls)
           = rev (map (\<lambda>(name, settings, r). newSession name settings r)
                   (drop (length calls - 50) calls))))"
proof (intro conjI impI)
  assume a: "storage_ok st \<and> calls \<noteq> []"
  then obtain written where
    w: "chat_item (createSessions pf st calls) = Some (Json (JArr written))"
      "length written \<le> MAX_SESSIONS"
    using createSessions_stored [of st calls pf] by blast
  then show "\<exists>written. chat_item (createSessions pf st calls) = Some (Json (JArr written)) \<and>
                 length written \<le> 50"
    unfolding MAX_SESSIONS_def by blast
  from getSessions_length_le [OF w(1), of pf] w(2)
  show "length (getSessions pf (createSessions pf st calls)) \<le> 50"
    unfolding MAX_SESSIONS_def by simp
next
  assume a: "iso_roundtrip pf \<and> storage_ok st \<and>
    (\<forall>ps\<in>set (getSessions pf st). well_formed_session ps) \<and> calls \<noteq> []"
  then have rt: "iso_roundtrip pf" by simp
  from a have main: "getSessions pf (createSessions pf st calls)
        = take 50
            (rev (map (\<lambda>(name, settings, r). reloaded pf (newSession name settings r)) calls)
             @ getSessions pf st)"
    unfolding MAX_SESSIONS_def [symmetric] by (intro createSessions_loaded_any) simp_all
  then show "getSessions pf (createSessions pf st calls)
        = take 50
            (rev (map (\<lambda>(name, settings, r). reloaded pf (newSession name settings r)) calls)
             @ getSessions pf st)" .
  show "\<forall>(name, settings, r)\<in>set calls.
         lookup (reloaded pf (newSession name settings r)) ''id''
           = VStr (generateId (date_now r) (random36 r)) \<and>
         lookup (reloaded pf (newSession name settings r)) ''name'' = VStr name \<and>
         lookup (reloaded pf (newSession name settings r)) ''createdAt''
           = VDate (Some (date1 r)) \<and>
         lookup (reloaded pf (newSession name settings r)) ''updatedAt''
           = VDate (Some (date2 r)) \<and>
         messages_of (reloaded pf (newSession name settings r)) = [] \<and>
         (plain settings \<longrightarrow>
            reloaded pf (newSession name settings r) = newSession name settings r)"
    using reloaded_newSession(1,2) [OF rt] reloaded_newSession_fields [OF rt]
      reloaded_well_formed [OF rt well_formed_newSession]
    by simp
  assume l: "50 \<le> length calls"
  then show "length (getSessions pf (createSessions pf st calls)) = 50"
    unfolding main by simp
  from l show "getSessions pf (createSessions pf st calls)
           = rev (map (\<lambda>(name, settings, r). reloaded pf (newSession name settings r))
                   (drop (length calls - 50) calls))"
    unfolding main by (simp add: take_rev drop_map)
next
  assume a: "iso_roundtrip pf \<and> storage_ok st \<and>
    (\<forall>ps\<in>set (getSessions pf st). well_formed_session ps) \<and>
    (\<forall>(name, settings, r)\<in>set calls. plain settings) \<and> calls \<noteq> []"
  then have main: "getSessions pf (createSessions pf st calls)
        = take 50
            (rev (map (\<lambda>(name, settings, r). newSession name settings r) calls)
             @ getSessions pf st)"
    unfolding MAX_SESSIONS_def [symmetric] by (intro createSessions_loaded) simp_all
  then show "getSessions pf (createSessions pf st calls)
        = take 50
            (rev (map (\<lambda>(name, settings, r). newSession name settings r) calls)
             @ getSessions pf st)" .
  assume l: "50 \<le> length calls"
  then show "length (getSessions pf (createSessions pf st calls)) = 50"
    unfolding main by simp
  from l show "getSessions pf (createSessions pf st calls)
           = rev (map (\<lambda>(name, settings, r). newSession name settings r)
                   (drop (length calls - 50) calls))"
    unfolding main by (simp add: take_rev drop_map)
qed

theorem createSessions_keeps_newest_witness:
  "length (getSessions decimal_platform (createSessions decimal_platform empty_browser many_calls))
     = 50 \<and>
   map (\<lambda>s. lookup s ''createdAt'')
     (getSessions decimal_platform (createSessions decimal_platform empty_browser many_calls))
     = map (\<lambda>n. VDate (Some (int n))) (rev [1..<51])"
proof -
  have ok: "storage_ok empty_browser"
    by (simp add: storage_ok_def empty_browser_def)
  have wf: "\<forall>ps\<in>set (getSessions decimal_platform empty_browser). well_formed_session ps"
    by (simp add: getSessions_def getSessions_try_def empty_browser_def)
  have pl: "\<forall>(name, settings, r)\<in>set many_calls. plain settings"
    by (simp add: many_calls_def numbered_call_def example_settings_def)
  have ne: "many_calls \<noteq> []"
    using length_many_calls by auto
  have len: "50 \<le> length many_calls"
    by (simp add: length_many_calls)
  have b: "iso_roundtrip decimal_platform \<and> storage_ok empty_browser \<and>
    (\<forall>ps\<in>set (getSessions decimal_platform empty_browser). well_formed_session ps) \<and>
    (\<forall>(name, settings, r)\<in>set many_calls. plain settings) \<and> many_calls \<noteq> []"
    using iso_roundtrip_decimal ok wf pl ne by (intro conjI)
  note T = createSessions_keeps_newest [of empty_browser many_calls decimal_platform,
      THEN conjunct2, THEN conjunct2, THEN mp, OF b, THEN conjunct2, THEN mp, OF len]
  have 1: "length (getSessions decimal_platform
      (createSessions decimal_platform empty_browser many_calls)) = 50"
    by (rule T [THEN conjunct1])
  have 2: "getSessions decimal_platform
      (createSessions decimal_platform empty_browser many_calls)
     = rev (map (\<lambda>(name, settings, r). newSession name settings r) (drop 1 many_calls))"
    using T [THEN conjunct2] by (simp only: length_many_calls) simp
  show ?thesis
    unfolding 2 [symmetric] using 1 newest_of_many_calls [folded 2] by (intro conjI)
qed

text \<open>
  C9 (amended). The id of a session or message is the base-36 numeral of the clock
  reading followed by the digits of the random number, and nothing compares it with the
  ids already stored. Two such ids whose clock readings have base-36 numerals of the
  same length, as have any two readings from 78364164096 up to but not including
  2821109907456 milliseconds (the seventh and the eighth power of 36), are equal exactly
  when the readings are equal and the random digits are equal. With numerals of different lengths the ids can be equal
  although the readings differ: the reading 63072000000 with the digits \<^verbatim>\<open>0abc\<close> and
  the reading 2270592000000 with the digits \<^verbatim>\<open>abc\<close> give the same id. Two calls with
  the same reading and the same random digits get the same id.
\<close>

theorem generateId_injective:
  "generateId t rnd = toString 36 t @ rnd \<and>
   lookup (newSession name settings r) ''id'' = VStr (generateId (date_now r) (random36 r)) \<and>
   lookup (newMessage message r) ''id'' = VStr (generateId (date_now r) (random36 r)) \<and>
   (length (toString 36 t) = length (toString 36 t') \<longrightarrow>
      (generateId t rnd = generateId t' rnd' \<longleftrightarrow> t = t' \<and> rnd = rnd')) \<and>
   (78364164096 \<le> t \<and> t < 2821109907456 \<and> 78364164096 \<le> t' \<and> t' < 2821109907456 \<longrightarrow>
      (generateId t rnd = generateId t' rnd' \<longleftrightarrow> t = t' \<and> rnd = rnd')) \<and>
   generateId 63072000000 ''0abc'' = generateId 2270592000000 ''abc''"
proof (intro conjI impI)
  show "generateId t rnd = toString 36 t @ rnd"
    by (simp add: generateId_def)
next
  show "lookup (newSession name settings r) ''id'' = VStr (generateId (date_now r) (random36 r))"
    by (simp add: newSession_def lookup_def)
next
  show "lookup (newMessage message r) ''id'' = VStr (generateId (date_now r) (random36 r))"
    by (simp add: lookup_newMessage)
next
  assume "length (toString 36 t) = length (toString 36 t')"
  then show "generateId t rnd = generateId t' rnd' \<longleftrightarrow> t = t' \<and> rnd = rnd'"
    by (rule generateId_eq_iff)
next
  assume "78364164096 \<le> t \<and> t < 2821109907456 \<and> 78364164096 \<le> t' \<and> t' < 2821109907456"
  then have "length (toString 36 t) = 8" "length (toString 36 t') = 8"
    by (simp_all add: length_toString_36)
  then have "length (toString 36 t) = length (toString 36 t')" by simp
  then show "generateId t rnd = generateId t' rnd' \<longleftrightarrow> t = t' \<and> rnd = rnd'"
    by (rule generateId_eq_iff)
next
  show "generateId 63072000000 ''0abc'' = generateId 2270592000000 ''abc''"
    by (rule collision_of_unequal_lengths)
qed

theorem generateId_injective_witness:
  "generateId 1700000000000 ''k3f9'' \<noteq> generateId 1700000000001 ''k3f9'' \<and>
   generateId 1700000000000 ''k3f9'' \<noteq> generateId 1700000000000 ''k3fa''"
proof -
  have r: "(78364164096::int) \<le> 1700000000000 \<and> (1700000000000::int) < 2821109907456 \<and>
           (78364164096::int) \<le> 1700000000001 \<and> (1700000000001::int) < 2821109907456"
    by simp
  have l: "length (toString 36 1700000000000) = length (toString 36 1700000000000)"
    by (rule refl)
  have "(generateId 1700000000000 ''k3f9'' = generateId 1700000000001 ''k3f9'')
        = ((1700000000000::int) = 1700000000001 \<and> ''k3f9'' = ''k3f9'')"
    by (rule generateId_injective [THEN conjunct2, THEN conjunct2, THEN conjunct2,
          THEN conjunct2, THEN conjunct1, THEN mp, OF r])
  then have 1: "generateId 1700000000000 ''k3f9'' \<noteq> generateId 1700000000001 ''k3f9''"
    by simp
  have "(generateId 1700000000000 ''k3f9'' = generateId 1700000000000 ''k3fa'')
        = ((1700000000000::int) = 1700000000000 \<and> ''k3f9'' = ''k3fa'')"
    by (rule generateId_injective [THEN conjunct2, THEN conjunct2, THEN conjunct2,
          THEN conjunct1, THEN mp, OF l])
  then have 2: "generateId 1700000000000 ''k3f9'' \<noteq> generateId 1700000000000 ''k3fa''"
    by simp
  from 1 2 show ?thesis by (intro conjI)
qed

text \<open>Two calls of \<^verbatim>\<open>createSession\<close> that read the same clock value and draw the same
  random digits: both sessions are stored, with the same id.\<close>

theorem equal_ids_counterexample:
  "map (\<lambda>s. (lookup s ''name'', lookup s ''id''))
     (getSessions decimal_platform
        (createSessions decimal_platform empty_browser
           [(''first'', example_settings, example_reads),
            (''second'', example_settings, example_reads)]))
   = [(VStr ''second'', VStr ''2sabc''), (VStr ''first'', VStr ''2sabc'')]"
proof -
  have ok: "storage_ok empty_browser"
    by (simp add: storage_ok_def empty_browser_def)
  have wf: "\<forall>ps\<in>set (getSessions decimal_platform empty_browser). well_formed_session ps"
    by (simp add: getSessions_def getSessions_try_def empty_browser_def)
  have e: "getSessions decimal_platform empty_browser = []"
    by (simp add: getSessions_def getSessions_try_def empty_browser_def)
  have pl: "plain example_settings" by (simp add: example_settings_def)
  let ?st = "fst (createSession decimal_platform empty_browser ''first'' example_settings example_reads)"
  have 1: "getSessions decimal_platform ?st = [newSession ''first'' example_settings example_reads]"
    using createSession_step [OF iso_roundtrip_decimal ok wf pl, of "''first''" example_reads]
    by (simp add: e MAX_SESSIONS_def)
  have ok1: "storage_ok ?st" using ok by (simp add: createSession_storage_ok)
  have wf1: "\<forall>ps\<in>set (getSessions decimal_platform ?st). well_formed_session ps"
    unfolding 1 using pl by (simp add: well_formed_newSession)
  have 2: "getSessions decimal_platform
             (fst (createSession decimal_platform ?st ''second'' example_settings example_reads))
           = [newSession ''second'' example_settings example_reads,
              newSession ''first'' example_settings example_reads]"
    using createSession_step [OF iso_roundtrip_decimal ok1 wf1 pl, of "''second''" example_reads]
    by (simp add: 1 MAX_SESSIONS_def)
  have id: "generateId 100 ''abc'' = ''2sabc''"
    by (simp add: generateId_def toString_def digits.simps digit_char_def)
  show ?thesis
    unfolding createSessions.simps 2
    by (simp add: newSession_def lookup_def example_reads_def id)
qed

section \<open>Loading\<close>

lemma those_None: "x \<in> set xs \<Longrightarrow> f x = None \<Longrightarrow> those (map f xs) = None"
  by (induction xs) (auto split: option.splits)

lemma revive_session_needs_messages:
  "\<not> isArray (dot v ''messages'') \<Longrightarrow> revive_session pf v = None"
proof (cases "get_prop v ''messages''")
  case None
  then show ?thesis
    by (cases v) (simp_all add: revive_session_def)
next
  case (Some m)
  assume "\<not> isArray (dot v ''messages'')"
  with Some have "array_map (revive_message pf) m = None"
    by (cases m) (simp_all add: dot_def)
  with Some show ?thesis
    by (cases v) (simp_all add: revive_session_def)
qed

text \<open>
  C8. \<^verbatim>\<open>getSessions\<close> returns a list for every stored value, and the empty list
  whenever reading, parsing or mapping throws: when storage is denied, when the text is
  not JSON, when it is not an array, when a record cannot be mapped, as one without a
  \<^verbatim>\<open>messages\<close> array. It returns a nonempty list only when the item is a JSON array
  each of whose records is mapped without an exception.
\<close>

theorem getSessions_fails_closed:
  "(getSessions_try pf st = None \<longrightarrow> getSessions pf st = []) \<and>
   (denied st \<longrightarrow> getSessions pf st = []) \<and>
   (chat_item st = Some (Raw s) \<longrightarrow> getSessions pf st = []) \<and>
   (chat_item st = Some (Json j) \<and> \<not> isArray (of_json j) \<longrightarrow> getSessions pf st = []) \<and>
   (chat_item st = Some (Json (JArr records)) \<and> r \<in> set records \<and>
      revive_session pf (of_json r) = None \<longrightarrow> getSessions pf st = []) \<and>
   (chat_item st = Some (Json (JArr records)) \<and> r \<in> set records \<and>
      \<not> isArray (dot (of_json r) ''messages'') \<longrightarrow> getSessions pf st = []) \<and>
   (getSessions pf st \<noteq> [] \<longrightarrow>
      (\<exists>loaded. chat_item st = Some (Json (JArr loaded)) \<and>
         those (map (\<lambda>x. revive_session pf (of_json x)) loaded) = Some (getSessions pf st)))"
proof -
  have a: "getSessions pf st = []" if "getSessions_try pf st = None"
    using that by (simp add: getSessions_def)
  have c: "getSessions_try pf st = None" if "chat_item st = Some (Json j)" "\<not> isArray (of_json j)"
    for j
    using that by (cases "of_json j") (simp_all add: getSessions_try_def)
  have d: "getSessions_try pf st = None"
    if "chat_item st = Some (Json (JArr records))" "r \<in> set records"
      "revive_session pf (of_json r) = None" for records r
  proof -
    have "those (map (revive_session pf) (map of_json records)) = None"
      unfolding map_map by (rule those_None [OF that(2)]) (simp add: that(3))
    with that(1) show ?thesis by (simp add: getSessions_try_def)
  qed
  have e: "getSessions pf st = []" if "denied st"
    using that by (simp add: getSessions_def getSessions_try_def)
  have f: "getSessions pf st = []" if "chat_item st = Some (Raw s)" for s
    using that by (auto simp: getSessions_def getSessions_try_def)
  have g: "getSessions pf st = []"
    if "chat_item st = Some (Json (JArr records))" "r \<in> set records"
      "\<not> isArray (dot (of_json r) ''messages'')" for records r
    using a d [OF that(1,2)] revive_session_needs_messages [OF that(3)] by simp
  have h: "\<exists>loaded. chat_item st = Some (Json (JArr loaded)) \<and>
         those (map (\<lambda>x. revive_session pf (of_json x)) loaded) = Some (getSessions pf st)"
    if ne: "getSessions pf st \<noteq> []"
  proof -
    from ne e have nd: "\<not> denied st" by auto
    from ne nd obtain stored where stored: "chat_item st = Some stored"
      by (cases "chat_item st") (auto simp: getSessions_def getSessions_try_def)
    from ne f stored obtain j where j: "stored = Json j"
      by (cases stored) auto
    from ne c stored j a have "isArray (of_json j)" by auto
    then obtain loaded where l: "j = JArr loaded"
      by (cases j) auto
    from ne nd stored j l show ?thesis
      by (auto simp: getSessions_def getSessions_try_def comp_def split: option.splits)
  qed
  from a c d e f g h show ?thesis by auto
qed

theorem getSessions_fails_closed_witness:
  "getSessions decimal_platform (empty_browser\<lparr>denied := True\<rparr>) = [] \<and>
   getSessions decimal_platform (empty_browser\<lparr>chat_item := Some (Raw ''{not json'')\<rparr>) = [] \<and>
   getSessions decimal_platform (empty_browser\<lparr>chat_item := Some (Json (JObj []))\<rparr>) = [] \<and>
   getSessions decimal_platform (empty_browser\<lparr>chat_item := Some (Json (JArr [example_record, JNull]))\<rparr>) = [] \<and>
   getSessions decimal_platform (empty_browser\<lparr>chat_item := Some (Json (JArr unreadable_records))\<rparr>) = []"
proof -
  note T = getSessions_fails_closed [where pf = decimal_platform]
  have 1: "getSessions decimal_platform (empty_browser\<lparr>denied := True\<rparr>) = []"
    using T [where st = "empty_browser\<lparr>denied := True\<rparr>"] by simp
  have 2: "getSessions decimal_platform (empty_browser\<lparr>chat_item := Some (Raw ''{not json'')\<rparr>) = []"
    using T [where st = "empty_browser\<lparr>chat_item := Some (Raw ''{not json'')\<rparr>" and s = "''{not json''"]
    by simp
  have 3: "getSessions decimal_platform (empty_browser\<lparr>chat_item := Some (Json (JObj []))\<rparr>) = []"
    using T [where st = "empty_browser\<lparr>chat_item := Some (Json (JObj []))\<rparr>" and j = "JObj []"]
    by simp
  have 4: "getSessions decimal_platform
             (empty_browser\<lparr>chat_item := Some (Json (JArr [example_record, JNull]))\<rparr>) = []"
    using T [where st = "empty_browser\<lparr>chat_item := Some (Json (JArr [example_record, JNull]))\<rparr>"
        and records = "[example_record, JNull]" and r = JNull]
    by (simp add: revive_session_def)
  have 5: "getSessions decimal_platform
             (empty_browser\<lparr>chat_item := Some (Json (JArr unreadable_records))\<rparr>) = []"
    using T [where st = "empty_browser\<lparr>chat_item := Some (Json (JArr unreadable_records))\<rparr>"
        and records = unreadable_records
        and r = "JObj [(''id'', JStr ''s9''), (''name'', JStr ''no messages'')]"]
    by (simp add: unreadable_records_def dot_def lookup_def)
  from 1 2 3 4 5 show ?thesis by simp
qed

section \<open>Messages\<close>

text \<open>
  C6 (amended). For a session id that no stored session has, \<^verbatim>\<open>addMessage\<close> returns
  \<^verbatim>\<open>null\<close> and the browser state it was given. For the id of a stored session (the
  first with that id) it throws nothing and returns the message with a generated id,
  the time of the call as timestamp and its other properties as given, and it saves the
  loaded collection with that message appended to the messages of the session and the
  \<^verbatim>\<open>updatedAt\<close> of the session set to the time of the call. The generated id is the
  base-36 numeral of the clock reading followed by the random digits; it is compared
  with no stored id and need not be fresh: of two calls whose clock readings have
  numerals of the same length, the ids are equal exactly when the readings are equal
  and the random digits are equal. On a writable store in the persisted layout, the
  collection loaded afterwards has the same number of sessions, each carrying on the
  one at its place (same id, same \<^verbatim>\<open>createdAt\<close>, the earlier messages at the front),
  all but the addressed one unchanged; the messages of the addressed one are the
  earlier messages followed by the new message as it is read back, and its
  \<^verbatim>\<open>updatedAt\<close> is the time of the call. The new message is read back with its id,
  its timestamp and every property given whose value holds no \<^verbatim>\<open>undefined\<close> and no
  \<^verbatim>\<open>Date\<close>; when the whole message holds none, it is read back as it was returned
  and the collection loaded is the collection saved.
\<close>

theorem addMessage_appends_or_reports:
  "(VStr sessionId \<notin> (\<lambda>s. lookup s ''id'') ` set (getSessions pf st) \<longrightarrow>
      addMessage pf st sessionId message r = Some (st, None)) \<and>
   (findIndex (\<lambda>s. lookup s ''id'' = VStr sessionId) (getSessions pf st) = Some i \<longrightarrow>
      addMessage pf st sessionId message r
        = Some (saveSessions pf st (map VObj ((getSessions pf st)
                  [i := with_message (getSessions pf st ! i) (newMessage message r) (date2 r)])),
                Some (newMessage message r)) \<and>
      lookup (newMessage message r) ''id'' = VStr (generateId (date_now r) (random36 r)) \<and>
      lookup (newMessage message r) ''timestamp'' = VDate (Some (date1 r)) \<and>
      (\<forall>k. k \<noteq> ''id'' \<and> k \<noteq> ''timestamp'' \<longrightarrow>
           lookup (newMessage message r) k = lookup message k)) \<and>
   (length (toString 36 (date_now r)) = length (toString 36 (date_now r')) \<longrightarrow>
      (lookup (newMessage message r) ''id'' = lookup (newMessage message' r') ''id''
         \<longleftrightarrow> date_now r = date_now r' \<and> random36 r = random36 r')) \<and>
   (iso_roundtrip pf \<and> storage_ok st \<and>
    (\<forall>ps\<in>set (getSessions pf st). well_formed_session ps) \<and>
    plain (VObj message) \<and> distinct (map fst message) \<and>
    findIndex (\<lambda>s. lookup s ''id'' = VStr sessionId) (getSessions pf st) = Some i \<longrightarrow>
      (\<exists>st'. addMessage pf st sessionId message r = Some (st', Some (newMessage message r)) \<and>
         getSessions pf st'
           = (getSessions pf st)[i := with_message (getSessions pf st ! i) (newMessage message r) (date2 r)] \<and>
         messages_of (getSessions pf st' ! i)
           = messages_of (getSessions pf st ! i) @ [VObj (newMessage message r)] \<and>
         lookup (getSessions pf st' ! i) ''updatedAt'' = VDate (Some (date2 r)))) \<and>
   (iso_roundtrip pf \<and> storage_ok st \<and>
    (\<forall>ps\<in>set (getSessions pf st). well_formed_session ps) \<and>
    findIndex (\<lambda>s. lookup s ''id'' = VStr sessionId) (getSessions pf st) = Some i \<longrightarrow>
      (\<exists>st'. addMessage pf st sessionId message r = Some (st', Some (newMessage message r)) \<and>
         carried_on (getSessions pf st) (getSessions pf st') \<and>
         (\<forall>j. j \<noteq> i \<longrightarrow> getSessions pf st' ! j = getSessions pf st ! j) \<and>
         messages_of (getSessions pf st' ! i)
           = messages_of (getSessions pf st ! i)
             @ [reloaded_message pf (VObj (newMessage message r))] \<and>
         lookup (getSessions pf st' ! i) ''updatedAt'' = VDate (Some (date2 r)))) \<and>
   (iso_roundtrip pf \<and> distinct (map fst message) \<longrightarrow>
      dot (reloaded_message pf (VObj (newMessage message r))) ''id''
        = VStr (generateId (date_now r) (random36 r)) \<and>
      dot (reloaded_message pf (VObj (newMessage message r))) ''timestamp''
        = VDate (Some (date1 r)) \<and>
      (\<forall>k. k \<noteq> ''id'' \<and> k \<noteq> ''timestamp'' \<and> plain (lookup message k) \<longrightarrow>
           dot (reloaded_message pf (VObj (newMessage message r))) k = lookup message k))"
proof (intro conjI impI)
  assume "VStr sessionId \<notin> (\<lambda>s. lookup s ''id'') ` set (getSessions pf st)"
  then show "addMessage pf st sessionId message r = Some (st, None)"
    by (rule addMessage_unknown)
next
  assume "findIndex (\<lambda>s. lookup s ''id'' = VStr sessionId) (getSessions pf st) = Some i"
  then show "addMessage pf st sessionId message r
        = Some (saveSessions pf st (map VObj ((getSessions pf st)
                  [i := with_message (getSessions pf st ! i) (newMessage message r) (date2 r)])),
                Some (newMessage message r))"
    by (rule addMessage_found)
next
  show "lookup (newMessage message r) ''id'' = VStr (generateId (date_now r) (random36 r))"
    by (simp add: lookup_newMessage)
next
  show "lookup (newMessage message r) ''timestamp'' = VDate (Some (date1 r))"
    by (simp add: lookup_newMessage)
next
  show "\<forall>k. k \<noteq> ''id'' \<and> k \<noteq> ''timestamp'' \<longrightarrow>
           lookup (newMessage message r) k = lookup message k"
    by (simp add: lookup_newMessage)
next
  assume "length (toString 36 (date_now r)) = length (toString 36 (date_now r'))"
  from generateId_eq_iff [OF this, of "random36 r" "random36 r'"]
  show "lookup (newMessage message r) ''id'' = lookup (newMessage message' r') ''id''
         \<longleftrightarrow> date_now r = date_now r' \<and> random36 r = random36 r'"
    by (simp add: lookup_newMessage)
next
  assume a: "iso_roundtrip pf \<and> storage_ok st \<and>
    (\<forall>ps\<in>set (getSessions pf st). well_formed_session ps) \<and>
    plain (VObj message) \<and> distinct (map fst message) \<and>
    findIndex (\<lambda>s. lookup s ''id'' = VStr sessionId) (getSessions pf st) = Some i"
  then have i: "findIndex (\<lambda>s. lookup s ''id'' = VStr sessionId) (getSessions pf st) = Some i"
    by simp
  from findIndex_Some [OF i] have il: "i < length (getSessions pf st)" by simp
  from a obtain st' where
    1: "addMessage pf st sessionId message r = Some (st', Some (newMessage message r))" and
    2: "getSessions pf st'
        = (getSessions pf st)[i := with_message (getSessions pf st ! i) (newMessage message r) (date2 r)]"
    using addMessage_known [of pf st message sessionId i r] by blast
  show "\<exists>st'. addMessage pf st sessionId message r = Some (st', Some (newMessage message r)) \<and>
         getSessions pf st'
           = (getSessions pf st)[i := with_message (getSessions pf st ! i) (newMessage message r) (date2 r)] \<and>
         messages_of (getSessions pf st' ! i)
           = messages_of (getSessions pf st ! i) @ [VObj (newMessage message r)] \<and>
         lookup (getSessions pf st' ! i) ''updatedAt'' = VDate (Some (date2 r))"
    using 1 2 il
    by (intro exI [of _ st']) (simp add: messages_of_with_message lookup_with_message)
next
  assume a: "iso_roundtrip pf \<and> storage_ok st \<and>
    (\<forall>ps\<in>set (getSessions pf st). well_formed_session ps) \<and>
    findIndex (\<lambda>s. lookup s ''id'' = VStr sessionId) (getSessions pf st) = Some i"
  then have rt: "iso_roundtrip pf" and ok: "storage_ok st"
    and wf: "\<forall>ps\<in>set (getSessions pf st). well_formed_session ps"
    and i: "findIndex (\<lambda>s. lookup s ''id'' = VStr sessionId) (getSessions pf st) = Some i"
    by simp_all
  from findIndex_Some [OF i] have il: "i < length (getSessions pf st)" by simp
  with wf have wfi: "well_formed_session (getSessions pf st ! i)" by simp
  from addMessage_loaded [OF rt ok wf i, of message r] obtain st' where
    1: "addMessage pf st sessionId message r = Some (st', Some (newMessage message r))" and
    2: "getSessions pf st'
         = (getSessions pf st)[i := reloaded pf
             (with_message (getSessions pf st ! i) (newMessage message r) (date2 r))]" and
    3: "messages_of (getSessions pf st' ! i)
         = messages_of (getSessions pf st ! i)
           @ [reloaded_message pf (VObj (newMessage message r))]" and
    4: "lookup (getSessions pf st' ! i) ''updatedAt'' = VDate (Some (date2 r))"
    by (elim exE conjE)
  have 5: "carried_on (getSessions pf st) (getSessions pf st')"
    unfolding 2 carried_on_def
  proof (intro conjI allI impI)
    fix j assume "j < length (getSessions pf st)"
    then show "carries_on (getSessions pf st ! j)
        ((getSessions pf st)[i := reloaded pf
             (with_message (getSessions pf st ! i) (newMessage message r) (date2 r))] ! j)"
      using carries_on_reloaded_with(2) [OF rt wfi] il
      by (cases "j = i") (simp_all add: carries_on_refl)
  qed simp
  have 6: "\<forall>j. j \<noteq> i \<longrightarrow> getSessions pf st' ! j = getSessions pf st ! j"
    unfolding 2 by simp
  from 1 3 4 5 6
  show "\<exists>st'. addMessage pf st sessionId message r = Some (st', Some (newMessage message r)) \<and>
         carried_on (getSessions pf st) (getSessions pf st') \<and>
         (\<forall>j. j \<noteq> i \<longrightarrow> getSessions pf st' ! j = getSessions pf st ! j) \<and>
         messages_of (getSessions pf st' ! i)
           = messages_of (getSessions pf st ! i)
             @ [reloaded_message pf (VObj (newMessage message r))] \<and>
         lookup (getSessions pf st' ! i) ''updatedAt'' = VDate (Some (date2 r))"
    by (intro exI [of _ st'] conjI)
next
  assume a: "iso_roundtrip pf \<and> distinct (map fst message)"
  then have rt: "iso_roundtrip pf" and d: "distinct (map fst message)"
    by simp_all
  show "dot (reloaded_message pf (VObj (newMessage message r))) ''id''
        = VStr (generateId (date_now r) (random36 r))"
    by (rule reloaded_newMessage(1) [OF rt d])
  show "dot (reloaded_message pf (VObj (newMessage message r))) ''timestamp''
        = VDate (Some (date1 r))"
    by (rule reloaded_newMessage(2) [OF rt d])
  show "\<forall>k. k \<noteq> ''id'' \<and> k \<noteq> ''timestamp'' \<and> plain (lookup message k) \<longrightarrow>
           dot (reloaded_message pf (VObj (newMessage message r))) k = lookup message k"
    using reloaded_newMessage(3) [OF rt d] by simp
qed

theorem addMessage_appends_or_reports_witness:
  "addMessage decimal_platform example_store ''nowhere'' example_message example_reads
     = Some (example_store, None) \<and>
   lookup (newMessage example_message example_reads) ''id'' = VStr ''2sabc'' \<and>
   lookup (newMessage example_message example_reads) ''id''
     \<noteq> lookup (newMessage example_message other_reads) ''id'' \<and>
   (\<exists>st'. addMessage decimal_platform example_store ''s1'' example_message example_reads
            = Some (st', Some (newMessage example_message example_reads)) \<and>
      messages_of (getSessions decimal_platform st' ! 0)
        = messages_of example_session @ [VObj (newMessage example_message example_reads)] \<and>
      lookup (getSessions decimal_platform st' ! 0) ''updatedAt'' = VDate (Some 101)) \<and>
   (\<exists>st'. addMessage decimal_platform example_store ''s1'' sparse_message example_reads
            = Some (st', Some (newMessage sparse_message example_reads)) \<and>
      carried_on [example_session] (getSessions decimal_platform st') \<and>
      lookup (getSessions decimal_platform st' ! 0) ''updatedAt'' = VDate (Some 101)) \<and>
   dot (reloaded_message decimal_platform (VObj (newMessage sparse_message example_reads)))
     ''content'' = VStr ''an answer''"
proof -
  have wf: "\<forall>ps\<in>set (getSessions decimal_platform example_store). well_formed_session ps"
    by (simp add: getSessions_example_store well_formed_example_session)
  have msg: "plain (VObj example_message)" "distinct (map fst example_message)"
    by (simp_all add: example_message_def)
  have no: "VStr ''nowhere'' \<notin> (\<lambda>s. lookup s ''id'') ` set (getSessions decimal_platform example_store)"
    by (simp add: getSessions_example_store example_session_def lookup_def)
  have yes: "findIndex (\<lambda>s. lookup s ''id'' = VStr ''s1'') (getSessions decimal_platform example_store)
             = Some 0"
    by (simp add: getSessions_example_store example_session_def lookup_def)
  have len: "length (toString 36 (date_now example_reads))
             = length (toString 36 (date_now other_reads))"
    by (simp add: example_reads_def other_reads_def)
  have d2: "date2 example_reads = 101" by (simp add: example_reads_def)
  have all: "iso_roundtrip decimal_platform \<and> storage_ok example_store \<and>
    (\<forall>ps\<in>set (getSessions decimal_platform example_store). well_formed_session ps) \<and>
    plain (VObj example_message) \<and> distinct (map fst example_message) \<and>
    findIndex (\<lambda>s. lookup s ''id'' = VStr ''s1'') (getSessions decimal_platform example_store)
      = Some 0"
    using iso_roundtrip_decimal storage_ok_example_store wf msg yes by (intro conjI)
  have any: "iso_roundtrip decimal_platform \<and> storage_ok example_store \<and>
    (\<forall>ps\<in>set (getSessions decimal_platform example_store). well_formed_session ps) \<and>
    findIndex (\<lambda>s. lookup s ''id'' = VStr ''s1'') (getSessions decimal_platform example_store)
      = Some 0"
    using iso_roundtrip_decimal storage_ok_example_store wf yes by (intro conjI)
  have 1: "addMessage decimal_platform example_store ''nowhere'' example_message example_reads
        = Some (example_store, None)"
    by (rule addMessage_appends_or_reports [THEN conjunct1, THEN mp, OF no])
  have "lookup (newMessage example_message example_reads) ''id''
        = VStr (generateId (date_now example_reads) (random36 example_reads))"
    by (rule addMessage_appends_or_reports [THEN conjunct2, THEN conjunct1, THEN mp, OF yes,
          THEN conjunct2, THEN conjunct1])
  then have 2: "lookup (newMessage example_message example_reads) ''id'' = VStr ''2sabc''"
    by (simp add: example_reads_def generateId_example)
  have "(lookup (newMessage example_message example_reads) ''id''
         = lookup (newMessage example_message other_reads) ''id'')
        = (date_now example_reads = date_now other_reads \<and>
           random36 example_reads = random36 other_reads)"
    by (rule addMessage_appends_or_reports [THEN conjunct2, THEN conjunct2, THEN conjunct1,
          THEN mp, OF len])
  then have 3: "lookup (newMessage example_message example_reads) ''id''
     \<noteq> lookup (newMessage example_message other_reads) ''id''"
    by (simp add: example_reads_def other_reads_def)
  from addMessage_appends_or_reports [THEN conjunct2, THEN conjunct2, THEN conjunct2,
      THEN conjunct1, THEN mp, OF all]
  obtain st' where S:
    "addMessage decimal_platform example_store ''s1'' example_message example_reads
       = Some (st', Some (newMessage example_message example_reads)) \<and>
     getSessions decimal_platform st'
       = (getSessions decimal_platform example_store)
         [0 := with_message (getSessions decimal_platform example_store ! 0)
                 (newMessage example_message example_reads) (date2 example_reads)] \<and>
     messages_of (getSessions decimal_platform st' ! 0)
       = messages_of (getSessions decimal_platform example_store ! 0)
         @ [VObj (newMessage example_message example_reads)] \<and>
     lookup (getSessions decimal_platform st' ! 0) ''updatedAt''
       = VDate (Some (date2 example_reads))"
    ..
  have a: "addMessage decimal_platform example_store ''s1'' example_message example_reads
       = Some (st', Some (newMessage example_message example_reads))"
    by (rule S [THEN conjunct1])
  have b: "messages_of (getSessions decimal_platform st' ! 0)
       = messages_of example_session @ [VObj (newMessage example_message example_reads)]"
    using S [THEN conjunct2, THEN conjunct2, THEN conjunct1]
    by (simp only: getSessions_example_store nth_Cons_0)
  have c: "lookup (getSessions decimal_platform st' ! 0) ''updatedAt'' = VDate (Some 101)"
    using S [THEN conjunct2, THEN conjunct2, THEN conjunct2]
    by (simp only: d2)
  from a b c have 4: "\<exists>st'. addMessage decimal_platform example_store ''s1'' example_message example_reads
            = Some (st', Some (newMessage example_message example_reads)) \<and>
      messages_of (getSessions decimal_platform st' ! 0)
        = messages_of example_session @ [VObj (newMessage example_message example_reads)] \<and>
      lookup (getSessions decimal_platform st' ! 0) ''updatedAt'' = VDate (Some 101)"
    by (intro exI [of _ st'] conjI)
  from addMessage_appends_or_reports [THEN conjunct2, THEN conjunct2, THEN conjunct2,
      THEN conjunct2, THEN conjunct1, THEN mp, OF any]
  obtain st'' where R:
    "addMessage decimal_platform example_store ''s1'' sparse_message example_reads
       = Some (st'', Some (newMessage sparse_message example_reads)) \<and>
     carried_on (getSessions decimal_platform example_store) (getSessions decimal_platform st'') \<and>
     (\<forall>j. j \<noteq> 0 \<longrightarrow>
        getSessions decimal_platform st'' ! j = getSessions decimal_platform example_store ! j) \<and>
     messages_of (getSessions decimal_platform st'' ! 0)
       = messages_of (getSessions decimal_platform example_store ! 0)
         @ [reloaded_message decimal_platform (VObj (newMessage sparse_message example_reads))] \<and>
     lookup (getSessions decimal_platform st'' ! 0) ''updatedAt''
       = VDate (Some (date2 example_reads))"
    ..
  have a': "addMessage decimal_platform example_store ''s1'' sparse_message example_reads
       = Some (st'', Some (newMessage sparse_message example_reads))"
    by (rule R [THEN conjunct1])
  have b': "carried_on [example_session] (getSessions decimal_platform st'')"
    using R [THEN conjunct2, THEN conjunct1] by (simp only: getSessions_example_store)
  have c': "lookup (getSessions decimal_platform st'' ! 0) ''updatedAt'' = VDate (Some 101)"
    using R [THEN conjunct2, THEN conjunct2, THEN conjunct2, THEN conjunct2]
    by (simp only: d2)
  from a' b' c' have 5: "\<exists>st'. addMessage decimal_platform example_store ''s1'' sparse_message example_reads
            = Some (st', Some (newMessage sparse_message example_reads)) \<and>
      carried_on [example_session] (getSessions decimal_platform st') \<and>
      lookup (getSessions decimal_platform st' ! 0) ''updatedAt'' = VDate (Some 101)"
    by (intro exI [of _ st''] conjI)
  have sp: "iso_roundtrip decimal_platform \<and> distinct (map fst sparse_message)"
    using iso_roundtrip_decimal by (simp add: sparse_message_def)
  have k: "''content'' \<noteq> ''id'' \<and> ''content'' \<noteq> ''timestamp'' \<and>
           plain (lookup sparse_message ''content'')"
    by (simp add: sparse_message_def lookup_def)
  have "dot (reloaded_message decimal_platform (VObj (newMessage sparse_message example_reads)))
          ''content'' = lookup sparse_message ''content''"
    by (rule addMessage_appends_or_reports [THEN conjunct2, THEN conjunct2, THEN conjunct2,
          THEN conjunct2, THEN conjunct2, THEN mp, OF sp, THEN conjunct2, THEN conjunct2,
          THEN spec, THEN mp, OF k])
  then have 6: "dot (reloaded_message decimal_platform
      (VObj (newMessage sparse_message example_reads))) ''content'' = VStr ''an answer''"
    by (simp add: sparse_message_def lookup_def)
  from 1 2 3 4 5 6 show ?thesis by (intro conjI)
qed

text \<open>Two calls of \<^verbatim>\<open>addMessage\<close> for the stored session \<^verbatim>\<open>s1\<close> that read the same
  clock value and draw the same random digits: both messages are appended, with the
  same id.\<close>

theorem equal_message_ids_counterexample:
  "map (\<lambda>m. dot m ''id'')
     (messages_of (hd (getSessions decimal_platform
        (run decimal_platform
           (run decimal_platform example_store (AddMessage ''s1'' example_message example_reads))
           (AddMessage ''s1'' example_message example_reads)))))
   = [VStr ''m1'', VStr ''2sabc'', VStr ''2sabc'']"
proof -
  let ?op = "AddMessage ''s1'' example_message example_reads"
  let ?new = "newMessage example_message example_reads"
  let ?s1 = "with_message example_session ?new 101"
  let ?st1 = "run decimal_platform example_store ?op"
  have wf: "\<forall>ps\<in>set (getSessions decimal_platform example_store). well_formed_session ps"
    by (simp add: getSessions_example_store well_formed_example_session)
  have msg: "plain (VObj example_message)" "distinct (map fst example_message)"
    by (simp_all add: example_message_def)
  have i0: "findIndex (\<lambda>s. lookup s ''id'' = VStr ''s1'') (getSessions decimal_platform example_store)
             = Some 0"
    by (simp add: getSessions_example_store example_session_def lookup_def)
  have d2: "date2 example_reads = 101" by (simp add: example_reads_def)
  have g1: "getSessions decimal_platform ?st1 = [?s1]"
    using run_AddMessage_layout(1) [OF iso_roundtrip_decimal storage_ok_example_store wf msg i0,
        of example_reads]
    by (simp only: getSessions_example_store d2 nth_Cons_0 list_update_code)
  have ok1: "storage_ok ?st1"
    by (rule run_AddMessage_layout(2) [OF iso_roundtrip_decimal storage_ok_example_store wf msg i0])
  have wf1: "\<forall>ps\<in>set (getSessions decimal_platform ?st1). well_formed_session ps"
    unfolding g1
    using well_formed_with_message [OF well_formed_example_session well_formed_newMessage [OF msg]]
    by simp
  have "lookup example_session ''id'' = VStr ''s1''"
    by (simp add: example_session_def lookup_def)
  then have id1: "lookup ?s1 ''id'' = VStr ''s1''"
    by (simp add: lookup_with_message)
  have i1: "findIndex (\<lambda>s. lookup s ''id'' = VStr ''s1'') (getSessions decimal_platform ?st1) = Some 0"
    unfolding g1 using id1 by simp
  have g2: "getSessions decimal_platform (run decimal_platform ?st1 ?op)
            = [with_message ?s1 ?new 101]"
    using run_AddMessage_layout(1) [OF iso_roundtrip_decimal ok1 wf1 msg i1, of example_reads]
    by (simp only: g1 d2 nth_Cons_0 list_update_code)
  have new_id: "dot (VObj ?new) ''id'' = VStr ''2sabc''"
    by (simp add: dot_def lookup_newMessage example_reads_def generateId_example)
  have old: "messages_of example_session
             = [VObj [(''role'', VStr ''user''), (''content'', VStr ''hello''),
                      (''id'', VStr ''m1''), (''timestamp'', VDate (Some 1200))]]"
    by (simp add: messages_of_def example_session_def lookup_def)
  show ?thesis
    unfolding g2 list.sel messages_of_with_message old
    using new_id by (simp add: dot_def lookup_def)
qed

section \<open>Settings\<close>

text \<open>
  C7. \<^verbatim>\<open>updateSessionSettings\<close> on the id of a stored session (the first with that
  id), on a writable store in the persisted layout, returns true and leaves every other
  session as it was; in the session itself only \<^verbatim>\<open>settings\<close> and \<^verbatim>\<open>updatedAt\<close>
  change: \<^verbatim>\<open>updatedAt\<close> becomes the time of the call, each property given in the
  partial settings has the given value, and every other property of the settings is as
  before. With \<^verbatim>\<open>{temperature: 0.5}\<close> only the temperature changes (the instance proved after it).
\<close>

theorem updateSessionSettings_merges:
  assumes "iso_roundtrip pf" and "storage_ok st"
    and "\<forall>ps\<in>set (getSessions pf st). well_formed_session ps"
    and "plain (VObj settings)" and "distinct (map fst settings)"
    and "findIndex (\<lambda>s. lookup s ''id'' = VStr sessionId) (getSessions pf st) = Some i"
  shows "\<exists>st'. updateSessionSettings pf st sessionId settings now = (st', True) \<and>
           length (getSessions pf st') = length (getSessions pf st) \<and>
           (\<forall>j. j \<noteq> i \<longrightarrow> getSessions pf st' ! j = getSessions pf st ! j) \<and>
           (\<forall>k. k \<noteq> ''settings'' \<and> k \<noteq> ''updatedAt'' \<longrightarrow>
                lookup (getSessions pf st' ! i) k = lookup (getSessions pf st ! i) k) \<and>
           lookup (getSessions pf st' ! i) ''updatedAt'' = VDate (Some now) \<and>
           (\<exists>merged. lookup (getSessions pf st' ! i) ''settings'' = VObj merged \<and>
              (\<forall>(k, v)\<in>set settings. lookup merged k = v) \<and>
              (\<forall>k. k \<notin> fst ` set settings \<longrightarrow>
                   lookup merged k = lookup (spread (lookup (getSessions pf st ! i) ''settings'')) k))"
proof -
  from findIndex_Some [OF assms(6)] have il: "i < length (getSessions pf st)" by simp
  from updateSessionSettings_known [OF assms(1-4,6), of now] obtain st' where
    1: "updateSessionSettings pf st sessionId settings now = (st', True)" and
    2: "getSessions pf st'
        = (getSessions pf st)[i := with_settings (getSessions pf st ! i) settings now]"
    by blast
  let ?merged = "merge_props (spread (lookup (getSessions pf st ! i) ''settings'')) settings"
  have "lookup (getSessions pf st' ! i) ''settings'' = VObj ?merged"
    using 2 il by (simp add: lookup_with_settings)
  moreover have "\<forall>(k, v)\<in>set settings. lookup ?merged k = v"
    using lookup_merge_props_given [OF assms(5)] by blast
  moreover have "\<forall>k. k \<notin> fst ` set settings \<longrightarrow>
      lookup ?merged k = lookup (spread (lookup (getSessions pf st ! i) ''settings'')) k"
    using lookup_merge_props_other by blast
  ultimately have "\<exists>merged. lookup (getSessions pf st' ! i) ''settings'' = VObj merged \<and>
              (\<forall>(k, v)\<in>set settings. lookup merged k = v) \<and>
              (\<forall>k. k \<notin> fst ` set settings \<longrightarrow>
                   lookup merged k = lookup (spread (lookup (getSessions pf st ! i) ''settings'')) k)"
    by blast
  with 1 2 il show ?thesis
    by (intro exI [of _ st']) (simp add: lookup_with_settings)
qed

theorem updateSessionSettings_merges_witness:
  "\<exists>st'. updateSessionSettings decimal_platform example_store ''s1'' [(''temperature'', VNum 0.5)] 1300
           = (st', True) \<and>
         lookup (getSessions decimal_platform st' ! 0) ''updatedAt'' = VDate (Some 1300) \<and>
         lookup (getSessions decimal_platform st' ! 0) ''name'' = VStr ''First chat'' \<and>
         (\<exists>merged. lookup (getSessions decimal_platform st' ! 0) ''settings'' = VObj merged \<and>
            lookup merged ''temperature'' = VNum 0.5 \<and>
            lookup merged ''model'' = VStr ''gpt-4o-mini'' \<and>
            lookup merged ''search_type'' = VStr ''hybrid'')"
proof -
  have wf: "\<forall>ps\<in>set (getSessions decimal_platform example_store). well_formed_session ps"
    by (simp add: getSessions_example_store well_formed_example_session)
  have pl: "plain (VObj [(''temperature'', VNum 0.5)])" "distinct (map fst [(''temperature'', VNum 0.5)])"
    by simp_all
  have yes: "findIndex (\<lambda>s. lookup s ''id'' = VStr ''s1'') (getSessions decimal_platform example_store)
             = Some 0"
    by (simp add: getSessions_example_store example_session_def lookup_def)
  from updateSessionSettings_merges [OF iso_roundtrip_decimal storage_ok_example_store wf pl yes, of 1300]
  obtain st' where S:
    "updateSessionSettings decimal_platform example_store ''s1'' [(''temperature'', VNum 0.5)] 1300
       = (st', True) \<and>
     length (getSessions decimal_platform st') = length (getSessions decimal_platform example_store) \<and>
     (\<forall>j. j \<noteq> 0 \<longrightarrow>
        getSessions decimal_platform st' ! j = getSessions decimal_platform example_store ! j) \<and>
     (\<forall>k. k \<noteq> ''settings'' \<and> k \<noteq> ''updatedAt'' \<longrightarrow>
          lookup (getSessions decimal_platform st' ! 0) k
          = lookup (getSessions decimal_platform example_store ! 0) k) \<and>
     lookup (getSessions decimal_platform st' ! 0) ''updatedAt'' = VDate (Some 1300) \<and>
     (\<exists>merged. lookup (getSessions decimal_platform st' ! 0) ''settings'' = VObj merged \<and>
        (\<forall>(k, v)\<in>set [(''temperature'', VNum 0.5)]. lookup merged k = v) \<and>
        (\<forall>k. k \<notin> fst ` set [(''temperature'', VNum 0.5)] \<longrightarrow>
           lookup merged k
           = lookup (spread (lookup (getSessions decimal_platform example_store ! 0) ''settings'')) k))"
    ..
  from S have 1:
    "updateSessionSettings decimal_platform example_store ''s1'' [(''temperature'', VNum 0.5)] 1300
       = (st', True)"
    by (elim conjE)
  from S have 2: "\<forall>k. k \<noteq> ''settings'' \<and> k \<noteq> ''updatedAt'' \<longrightarrow>
          lookup (getSessions decimal_platform st' ! 0) k
          = lookup (getSessions decimal_platform example_store ! 0) k"
    by (elim conjE)
  from S have 3: "lookup (getSessions decimal_platform st' ! 0) ''updatedAt'' = VDate (Some 1300)"
    by (elim conjE)
  from S obtain merged where
    4: "lookup (getSessions decimal_platform st' ! 0) ''settings'' = VObj merged" and
    5: "\<forall>(k, v)\<in>set [(''temperature'', VNum 0.5)]. lookup merged k = v" and
    6: "\<forall>k. k \<notin> fst ` set [(''temperature'', VNum 0.5)] \<longrightarrow>
          lookup merged k
          = lookup (spread (lookup (getSessions decimal_platform example_store ! 0) ''settings'')) k"
    by (elim conjE exE)
  have "lookup (getSessions decimal_platform st' ! 0) ''name'' = VStr ''First chat''"
    using 2 by (simp add: getSessions_example_store example_session_def lookup_def)
  moreover have "lookup merged ''temperature'' = VNum 0.5"
    using 5 by simp
  moreover have "lookup merged ''model'' = VStr ''gpt-4o-mini''"
    using 6 by (simp add: getSessions_example_store example_session_def lookup_def)
  moreover have "lookup merged ''search_type'' = VStr ''hybrid''"
    using 6 by (simp add: getSessions_example_store example_session_def lookup_def)
  ultimately show ?thesis using 1 3 4 by (intro exI [of _ st'] conjI exI [of _ merged])
qed

section \<open>Export, then import\<close>

text \<open>
  C5. When the sessions of a store are in the persisted layout and pass the shape check,
  importing the file that \<^verbatim>\<open>exportSessions\<close> writes for it, into any writable store,
  resolves to true, and the sessions then loaded are those of the exporting store: the
  same objects in the same order, whatever the importing store held. Importing the
  export of one session into a store of two leaves one session (the instance proved after it).
\<close>

theorem export_then_import:
  assumes "iso_roundtrip pf" and "storage_ok target"
    and "\<forall>ps\<in>set (getSessions pf st). well_formed_session ps"
    and "\<forall>ps\<in>set (getSessions pf st). isValidSession (VObj ps)"
  shows "\<exists>st'. importSessions pf target (exportSessions pf st) = (st', True) \<and>
           getSessions pf st' = getSessions pf st \<and>
           length (getSessions pf st') = length (getSessions pf st)"
proof -
  let ?xs = "getSessions pf st"
  have valid: "list_all isValidSession (map (\<lambda>ps. reparse pf (VObj ps)) ?xs)"
    using assms(3,4) by (simp add: list_all_iff isValidSession_reparse)
  have "stringify_array pf (map (\<lambda>ps. reparse pf (VObj ps)) ?xs) = stringify_array pf (map VObj ?xs)"
    using jsonify_reparse [of pf] by (simp add: stringify_array_def jsonify_def comp_def)
  then have save: "saveSessions pf target (map (\<lambda>ps. reparse pf (VObj ps)) ?xs)
                   = saveSessions pf target (map VObj ?xs)"
    by (simp add: saveSessions_def)
  have "importSessions pf target (exportSessions pf st)
        = (saveSessions pf target (map VObj ?xs), True)"
    using valid save
    by (simp add: exportSessions_parsed importSessions_def comp_def reparse_def)
  moreover have "getSessions pf (saveSessions pf target (map VObj ?xs)) = ?xs"
    by (rule getSessions_saveSessions [OF assms(1,2,3)])
  ultimately show ?thesis by simp
qed

theorem export_then_import_witness:
  "length (getSessions decimal_platform two_session_store) = 2 \<and>
   (\<exists>st'. importSessions decimal_platform two_session_store
             (exportSessions decimal_platform example_store) = (st', True) \<and>
          getSessions decimal_platform st' = [example_session] \<and>
          length (getSessions decimal_platform st') = 1)"
proof -
  have wf: "\<forall>ps\<in>set (getSessions decimal_platform example_store). well_formed_session ps"
    by (simp add: getSessions_example_store well_formed_example_session)
  have v: "\<forall>ps\<in>set (getSessions decimal_platform example_store). isValidSession (VObj ps)"
    by (simp add: getSessions_example_store example_session_def isValidSession_def dot_def
        lookup_def)
  have ok: "storage_ok two_session_store"
    by (simp add: storage_ok_def two_session_store_def empty_browser_def)
  from export_then_import [OF iso_roundtrip_decimal ok wf v]
  obtain st' where S:
    "importSessions decimal_platform two_session_store
       (exportSessions decimal_platform example_store) = (st', True) \<and>
     getSessions decimal_platform st' = getSessions decimal_platform example_store \<and>
     length (getSessions decimal_platform st') = length (getSessions decimal_platform example_store)"
    ..
  then have "importSessions decimal_platform two_session_store
       (exportSessions decimal_platform example_store) = (st', True) \<and>
     getSessions decimal_platform st' = [example_session] \<and>
     length (getSessions decimal_platform st') = 1"
    by (simp add: getSessions_example_store)
  then show ?thesis
    using length_two_session_store by (intro conjI exI [of _ st']) simp_all
qed

section \<open>Order of dates and of messages\<close>

text \<open>
  C4 (amended). On a writable store in the persisted layout where
  \<^verbatim>\<open>updatedAt >= createdAt\<close> holds for every session, and with a clock that does not
  run backwards (the time written is not before the \<^verbatim>\<open>createdAt\<close> of a stored session,
  and in \<^verbatim>\<open>createSession\<close> the second reading is not before the first), it holds
  again after \<^verbatim>\<open>createSession\<close>, \<^verbatim>\<open>updateSessionName\<close>, \<^verbatim>\<open>addMessage\<close> and
  \<^verbatim>\<open>updateSessionSettings\<close>, whatever their arguments. After
  \<^verbatim>\<open>updateSessionName\<close>, \<^verbatim>\<open>addMessage\<close> and \<^verbatim>\<open>updateSessionSettings\<close> the
  collection has the same number of sessions and the session at each place carries on
  the one that was there: same id, same \<^verbatim>\<open>createdAt\<close>, and the earlier messages in
  their order at the front of its messages. After \<^verbatim>\<open>createSession\<close> the first
  session is the new one, with the generated id and no messages, and the others are the
  first 49 of those stored before, unchanged. \<^verbatim>\<open>importSessions\<close> is not among them: it
  checks neither dates nor messages.
\<close>

theorem operations_keep_order:
  assumes rt: "iso_roundtrip pf" and ok: "storage_ok st"
    and wf: "\<forall>ps\<in>set (getSessions pf st). well_formed_session ps"
    and inv: "\<forall>ps\<in>set (getSessions pf st). updated_after_created ps"
    and clock: "clock_ok (getSessions pf st) operation"
  shows "(\<forall>ps'\<in>set (getSessions pf (run pf st operation)). updated_after_created ps') \<and>
         (case operation of
            CreateSession name settings r \<Rightarrow>
              getSessions pf (run pf st operation) \<noteq> [] \<and>
              lookup (hd (getSessions pf (run pf st operation))) ''id''
                = VStr (generateId (date_now r) (random36 r)) \<and>
              messages_of (hd (getSessions pf (run pf st operation))) = [] \<and>
              tl (getSessions pf (run pf st operation)) = take 49 (getSessions pf st)
          | _ \<Rightarrow> carried_on (getSessions pf st) (getSessions pf (run pf st operation)))"
proof (cases operation)
  case (CreateSession name settings r)
  let ?new = "reloaded pf (newSession name settings r)"
  from clock CreateSession have c: "date1 r \<le> date2 r" by simp
  have g: "getSessions pf (run pf st operation) = ?new # take 49 (getSessions pf st)"
    unfolding CreateSession run.simps createSession_loaded [OF rt ok wf]
    by (simp add: MAX_SESSIONS_def)
  have "\<forall>ps'\<in>set (?new # take 49 (getSessions pf st)). updated_after_created ps'"
    using inv reloaded_newSession(3) [OF rt c] by (auto dest: in_set_takeD)
  then show ?thesis
    unfolding g using reloaded_newSession(1,2) [OF rt, of name settings r]
    by (simp add: CreateSession)
next
  case (UpdateSessionName sessionId name now)
  show ?thesis
  proof (cases "findIndex (\<lambda>s. lookup s ''id'' = VStr sessionId) (getSessions pf st)")
    case None
    then have "run pf st operation = st"
      by (simp add: UpdateSessionName updateSessionName_unknown)
    with unchanged_sessions_carry_on [OF inv] UpdateSessionName show ?thesis
      by (simp add: carried_on_def)
  next
    case (Some i)
    from findIndex_Some [OF Some] have il: "i < length (getSessions pf st)" by simp
    with wf have wfi: "well_formed_session (getSessions pf st ! i)" by simp
    from il clock UpdateSessionName have cb: "created_before (getSessions pf st ! i) now" by simp
    have g: "getSessions pf (run pf st operation)
             = (getSessions pf st)[i := reloaded pf (with_name (getSessions pf st ! i) name now)]"
      unfolding UpdateSessionName run.simps updateSessionName_found [OF Some] fst_conv
      by (rule update_session_reload_loadable [OF rt ok wf loadable_with(1) [OF wfi]])
    from replaced_session_carries_on [OF inv il
        updated_after_created_reloaded_with(1) [OF rt wfi cb]
        carries_on_reloaded_with(1) [OF rt wfi]]
    show ?thesis
      unfolding g by (simp add: UpdateSessionName carried_on_def)
  qed
next
  case (AddMessage sessionId message r)
  show ?thesis
  proof (cases "findIndex (\<lambda>s. lookup s ''id'' = VStr sessionId) (getSessions pf st)")
    case None
    then have "run pf st operation = st"
      by (simp add: AddMessage addMessage_no_index)
    with unchanged_sessions_carry_on [OF inv] AddMessage show ?thesis
      by (simp add: carried_on_def)
  next
    case (Some i)
    from findIndex_Some [OF Some] have il: "i < length (getSessions pf st)" by simp
    with wf have wfi: "well_formed_session (getSessions pf st ! i)" by simp
    from il clock AddMessage have cb: "created_before (getSessions pf st ! i) (date2 r)" by simp
    have g: "getSessions pf (run pf st operation)
             = (getSessions pf st)[i := reloaded pf
                 (with_message (getSessions pf st ! i) (newMessage message r) (date2 r))]"
      unfolding AddMessage run.simps addMessage_found [OF Some] option.case prod.case
      by (rule update_session_reload_loadable [OF rt ok wf loadable_with(2) [OF wfi]])
    from replaced_session_carries_on [OF inv il
        updated_after_created_reloaded_with(2) [OF rt wfi cb]
        carries_on_reloaded_with(2) [OF rt wfi]]
    show ?thesis
      unfolding g by (simp add: AddMessage carried_on_def)
  qed
next
  case (UpdateSessionSettings sessionId settings now)
  show ?thesis
  proof (cases "findIndex (\<lambda>s. lookup s ''id'' = VStr sessionId) (getSessions pf st)")
    case None
    then have "run pf st operation = st"
      by (simp add: UpdateSessionSettings updateSessionSettings_unknown)
    with unchanged_sessions_carry_on [OF inv] UpdateSessionSettings show ?thesis
      by (simp add: carried_on_def)
  next
    case (Some i)
    from findIndex_Some [OF Some] have il: "i < length (getSessions pf st)" by simp
    with wf have wfi: "well_formed_session (getSessions pf st ! i)" by simp
    from il clock UpdateSessionSettings have cb: "created_before (getSessions pf st ! i) now"
      by simp
    have g: "getSessions pf (run pf st operation)
             = (getSessions pf st)[i := reloaded pf
                 (with_settings (getSessions pf st ! i) settings now)]"
      unfolding UpdateSessionSettings run.simps updateSessionSettings_found [OF Some] fst_conv
      by (rule update_session_reload_loadable [OF rt ok wf loadable_with(3) [OF wfi]])
    from replaced_session_carries_on [OF inv il
        updated_after_created_reloaded_with(3) [OF rt wfi cb]
        carries_on_reloaded_with(3) [OF rt wfi]]
    show ?thesis
      unfolding g by (simp add: UpdateSessionSettings carried_on_def)
  qed
qed

theorem operations_keep_order_witness:
  "list_all updated_after_created
     (getSessions decimal_platform
        (run decimal_platform example_store (AddMessage ''s1'' sparse_message later_reads))) \<and>
   carried_on [example_session]
     (getSessions decimal_platform
        (run decimal_platform example_store (AddMessage ''s1'' sparse_message later_reads)))"
proof -
  have wf: "\<forall>ps\<in>set (getSessions decimal_platform example_store). well_formed_session ps"
    by (simp add: getSessions_example_store well_formed_example_session)
  have inv: "\<forall>ps\<in>set (getSessions decimal_platform example_store). updated_after_created ps"
    by (simp add: getSessions_example_store example_session_def updated_after_created_def
        lookup_def)
  have clock: "clock_ok (getSessions decimal_platform example_store)
                 (AddMessage ''s1'' sparse_message later_reads)"
    by (simp add: getSessions_example_store example_session_def created_before_def lookup_def
        later_reads_def)
  note T = operations_keep_order [OF iso_roundtrip_decimal storage_ok_example_store wf inv clock]
  have 1: "list_all updated_after_created
     (getSessions decimal_platform
        (run decimal_platform example_store (AddMessage ''s1'' sparse_message later_reads)))"
    using T [THEN conjunct1] by (simp only: list_all_iff)
  have 2: "carried_on [example_session]
     (getSessions decimal_platform
        (run decimal_platform example_store (AddMessage ''s1'' sparse_message later_reads)))"
    using T [THEN conjunct2] by (simp only: operation.case getSessions_example_store)
  from 1 2 show ?thesis by (intro conjI)
qed

text \<open>An import that passes the shape check, of a record for the stored session
  \<^verbatim>\<open>s1\<close> with \<^verbatim>\<open>updatedAt\<close> before \<^verbatim>\<open>createdAt\<close> and without the message that the
  stored session has.\<close>

theorem import_breaks_order_counterexample:
  "snd (importSessions decimal_platform example_store (Json (JArr [backdated_record]))) = True \<and>
   \<not> list_all updated_after_created
       (getSessions decimal_platform
          (fst (importSessions decimal_platform example_store (Json (JArr [backdated_record]))))) \<and>
   map (\<lambda>s. lookup s ''id'') (getSessions decimal_platform example_store) = [VStr ''s1''] \<and>
   map (\<lambda>s. length (messages_of s)) (getSessions decimal_platform example_store) = [1] \<and>
   map (\<lambda>s. lookup s ''id'')
     (getSessions decimal_platform
        (fst (importSessions decimal_platform example_store (Json (JArr [backdated_record])))))
     = [VStr ''s1''] \<and>
   map (\<lambda>s. length (messages_of s))
     (getSessions decimal_platform
        (fst (importSessions decimal_platform example_store (Json (JArr [backdated_record])))))
     = [0]"
  unfolding import_backdated fst_conv snd_conv getSessions_backdated getSessions_example_store
  by (simp add: backdated_session_def example_session_def updated_after_created_def lookup_def
      messages_of_def)

end
